theory Spec2Isabelle
  imports Complex_Main "HOL-Library.Word"
begin

unbundle bit_operations_syntax

section \<open>The mipmap reader of websdr (src/websdr/mipmap\_reader.H)\<close>

text \<open>
  The C++ \<^verbatim>\<open>int\<close> is the 32-bit signed integer. A value of that type is an
  integer from \<open>-2147483648\<close> to \<open>2147483647\<close>, and every addition, subtraction
  and multiplication of the code is checked: a result outside that range is a
  signed overflow, which is undefined behaviour in C++, and ends the run with the
  error \<open>Overflow\<close>. The packed 64-bit elements of the mipmap buffer are words. The
  fixed-size arrays of length \<^verbatim>\<open>LEVELS\<close> are lists of that length.

  What the C++ code leaves undefined or aborts on is a value of the type \<open>error\<close>:
  an array access out of range, an integer division by zero, a signed overflow
  (also the one of the division of the least integer by \<open>-1\<close>), a failed
  \<^verbatim>\<open>assert\<close> and the thrown \<^verbatim>\<open>logic_error\<close>. A function with a loop that may
  run forever returns an \<open>option\<close>, and \<open>None\<close> when it does not return.
\<close>

datatype error = OutOfBounds | DivisionByZero | Overflow | AssertionFailed | LogicError

subsection \<open>The arithmetic of the C++ int\<close>

definition int_ok :: "int \<Rightarrow> bool" where
  "int_ok x \<longleftrightarrow> - 2147483648 \<le> x \<and> x \<le> 2147483647"

definition int_add :: "int \<Rightarrow> int \<Rightarrow> error + int" where
  "int_add a b = (if int_ok (a + b) then Inr (a + b) else Inl Overflow)"

definition int_sub :: "int \<Rightarrow> int \<Rightarrow> error + int" where
  "int_sub a b = (if int_ok (a - b) then Inr (a - b) else Inl Overflow)"

definition int_mul :: "int \<Rightarrow> int \<Rightarrow> error + int" where
  "int_mul a b = (if int_ok (a * b) then Inr (a * b) else Inl Overflow)"

text \<open>\<^verbatim>\<open>/\<close> truncates towards zero and \<^verbatim>\<open>%\<close> is the remainder of that division.\<close>

definition cdiv :: "int \<Rightarrow> int \<Rightarrow> int" where
  "cdiv a b = sgn a * sgn b * (\<bar>a\<bar> div \<bar>b\<bar>)"

definition cmod :: "int \<Rightarrow> int \<Rightarrow> int" where
  "cmod a b = a - b * cdiv a b"

definition int_div :: "int \<Rightarrow> int \<Rightarrow> error + int" where
  "int_div a b =
     (if b = 0 then Inl DivisionByZero
      else if a = - 2147483648 \<and> b = - 1 then Inl Overflow
      else Inr (cdiv a b))"

definition int_mod :: "int \<Rightarrow> int \<Rightarrow> error + int" where
  "int_mod a b =
     (if b = 0 then Inl DivisionByZero
      else if a = - 2147483648 \<and> b = - 1 then Inl Overflow
      else Inr (cmod a b))"

subsection \<open>mipmapChunkFinder\<close>

record mipmapChunkFinder =
  levelSteps :: "int list"
  levelSizes :: "int list"
  levelIndex :: "int list"
  totalChunkCount :: int
  currLevel :: int
  currIndex :: int

text \<open>The template parameter: the length of the three arrays.\<close>

definition LEVELS :: "mipmapChunkFinder \<Rightarrow> nat" where
  "LEVELS f = length (levelSteps f)"

text \<open>
  A finder as the struct's member initialisers leave it, with \<^verbatim>\<open>levelSteps\<close>
  filled in by the user (step 1 of the usage comment).
\<close>

definition new_finder :: "int list \<Rightarrow> mipmapChunkFinder" where
  "new_finder steps =
     \<lparr>levelSteps = steps,
      levelSizes = replicate (length steps) 0,
      levelIndex = replicate (length steps) 0,
      totalChunkCount = 0, currLevel = 0, currIndex = 0\<rparr>"

text \<open>The loop of \<^verbatim>\<open>init\<close> (lines 27 to 29), from index \<open>i\<close>.\<close>

function init_sizes :: "int list \<Rightarrow> nat \<Rightarrow> int list \<Rightarrow> error + int list" where
  "init_sizes steps i sizes =
     (if i < length steps
      then (case int_mul (sizes ! (i - 1)) (steps ! (i - 1)) of
              Inl e \<Rightarrow> Inl e
            | Inr p \<Rightarrow>
                (case int_add p 1 of
                   Inl e \<Rightarrow> Inl e
                 | Inr z \<Rightarrow> init_sizes steps (Suc i) (sizes[i := z])))
      else Inr sizes)"
  by pat_completeness auto
termination
  by (relation "measure (\<lambda>(steps, i, sizes). length steps - i)") auto

declare init_sizes.simps [simp del]

text \<open>
  \<^verbatim>\<open>init\<close> checks nothing. With \<^verbatim>\<open>LEVELS = 0\<close> its first statement writes
  \<^verbatim>\<open>levelSizes[0]\<close> of an empty array; every other access is in range.
\<close>

definition init :: "mipmapChunkFinder \<Rightarrow> error + mipmapChunkFinder" where
  "init f =
     (if LEVELS f = 0 then Inl OutOfBounds
      else
        case init_sizes (levelSteps f) 1 ((levelSizes f)[0 := 1]) of
          Inl e \<Rightarrow> Inl e
        | Inr sizes \<Rightarrow>
            (case int_mul (sizes ! (LEVELS f - 1)) (levelSteps f ! (LEVELS f - 1)) of
               Inl e \<Rightarrow> Inl e
             | Inr n \<Rightarrow> Inr (f\<lparr>levelSizes := sizes, totalChunkCount := n\<rparr>)))"

text \<open>
  The first loop of \<^verbatim>\<open>goToChunk\<close> (lines 40 to 43), from index \<open>i\<close>:
  the local indexes of the ancestors. A zero step is a division by zero.
\<close>

function goToChunk_digits :: "int list \<Rightarrow> nat \<Rightarrow> int \<Rightarrow> int list \<Rightarrow> error + int list" where
  "goToChunk_digits steps i tmpIndex li =
     (if i < length steps
      then (case int_mod tmpIndex (steps ! i) of
              Inl e \<Rightarrow> Inl e
            | Inr d \<Rightarrow>
                (case int_div tmpIndex (steps ! i) of
                   Inl e \<Rightarrow> Inl e
                 | Inr t \<Rightarrow> goToChunk_digits steps (Suc i) t (li[i := d])))
      else Inr li)"
  by pat_completeness auto
termination
  by (relation "measure (\<lambda>(steps, i, tmpIndex, li). length steps - i)") auto

declare goToChunk_digits.simps [simp del]

text \<open>The second loop (lines 47 and 48), from index \<open>i\<close> with the sum so far.\<close>

function goToChunk_sum :: "nat \<Rightarrow> int list \<Rightarrow> int list \<Rightarrow> nat \<Rightarrow> int \<Rightarrow> error + int" where
  "goToChunk_sum n li sizes i acc =
     (if i < n
      then (case int_mul (li ! i) (sizes ! i) of
              Inl e \<Rightarrow> Inl e
            | Inr p \<Rightarrow>
                (case int_add acc p of
                   Inl e \<Rightarrow> Inl e
                 | Inr acc' \<Rightarrow> goToChunk_sum n li sizes (Suc i) acc'))
      else Inr acc)"
  by pat_completeness auto
termination
  by (relation "measure (\<lambda>(n, li, sizes, i, acc). n - i)") auto

declare goToChunk_sum.simps [simp del]

text \<open>
  \<^verbatim>\<open>goToChunk(level, index)\<close>. A negative level indexes the arrays below zero in
  the loops; a level above \<^verbatim>\<open>LEVELS\<close> skips both loops and reads
  \<^verbatim>\<open>levelSteps[level-1]\<close> beyond the array.
\<close>

definition goToChunk :: "mipmapChunkFinder \<Rightarrow> int \<Rightarrow> int \<Rightarrow> error + mipmapChunkFinder" where
  "goToChunk f level index =
     (if level < 0 \<or> int (LEVELS f) < level then Inl OutOfBounds
      else
        case goToChunk_digits (levelSteps f) (nat level) index (levelIndex f) of
          Inl e \<Rightarrow> Inl e
        | Inr li \<Rightarrow>
            (case goToChunk_sum (LEVELS f) li (levelSizes f) (nat level) 0 of
               Inl e \<Rightarrow> Inl e
             | Inr c \<Rightarrow>
                 (case (if level > 0
                        then (case int_mul (levelSteps f ! nat (level - 1))
                                     (levelSizes f ! nat (level - 1)) of
                                Inl e \<Rightarrow> Inl e
                              | Inr p \<Rightarrow> int_add c p)
                        else Inr c) of
                    Inl e \<Rightarrow> Inl e
                  | Inr c' \<Rightarrow> Inr (f\<lparr>levelIndex := li, currLevel := level, currIndex := c'\<rparr>))))"

text \<open>
  The carry loop of \<^verbatim>\<open>advanceChunk\<close> (lines 61 to 68), from index \<open>i\<close>; it
  returns the local indexes and \<^verbatim>\<open>currIndex\<close>.
\<close>

function advanceChunk_carry ::
  "int list \<Rightarrow> nat \<Rightarrow> int list \<Rightarrow> int \<Rightarrow> error + int list \<times> int" where
  "advanceChunk_carry steps i li c =
     (if i < length steps
      then (case int_add c 1 of
              Inl e \<Rightarrow> Inl e
            | Inr c1 \<Rightarrow>
                (case int_sub (steps ! i) 1 of
                   Inl e \<Rightarrow> Inl e
                 | Inr m \<Rightarrow>
                     if li ! i \<noteq> m
                     then (case int_add (li ! i) 1 of
                             Inl e \<Rightarrow> Inl e
                           | Inr d \<Rightarrow> Inr (li[i := d], c1))
                     else advanceChunk_carry steps (Suc i) (li[i := 0]) c1))
      else Inr (li, c))"
  by pat_completeness auto
termination
  by (relation "measure (\<lambda>(steps, i, li, c). length steps - i)") auto

declare advanceChunk_carry.simps [simp del]

definition advanceChunk :: "mipmapChunkFinder \<Rightarrow> error + mipmapChunkFinder" where
  "advanceChunk f =
     (if currLevel f < 0 \<or> int (LEVELS f) \<le> currLevel f then Inl OutOfBounds
      else
        let level = nat (currLevel f) in
        case int_add (currIndex f) (levelSizes f ! level) of
          Inl e \<Rightarrow> Inl e
        | Inr c \<Rightarrow>
            (case int_sub (levelSteps f ! level) 1 of
               Inl e \<Rightarrow> Inl e
             | Inr m \<Rightarrow>
                 (case (if levelIndex f ! level = m
                        then (case advanceChunk_carry (levelSteps f) (Suc level) (levelIndex f) c of
                                Inl e \<Rightarrow> Inl e
                              | Inr (li', c') \<Rightarrow> Inr (li'[level := 0], c'))
                        else (case int_add (levelIndex f ! level) 1 of
                                Inl e \<Rightarrow> Inl e
                              | Inr d \<Rightarrow> Inr ((levelIndex f)[level := d], c))) of
                    Inl e \<Rightarrow> Inl e
                  | Inr (li, c') \<Rightarrow>
                      (case (if c' \<ge> totalChunkCount f then int_sub c' (totalChunkCount f)
                             else Inr c') of
                         Inl e \<Rightarrow> Inl e
                       | Inr c'' \<Rightarrow> Inr (f\<lparr>levelIndex := li, currIndex := c''\<rparr>)))))"

text \<open>\<open>k\<close> calls of \<^verbatim>\<open>advanceChunk\<close> in a row, stopping at the first error.\<close>

fun advances :: "nat \<Rightarrow> mipmapChunkFinder \<Rightarrow> error + mipmapChunkFinder" where
  "advances 0 f = Inr f"
| "advances (Suc k) f = (case advanceChunk f of Inl e \<Rightarrow> Inl e | Inr f' \<Rightarrow> advances k f')"

subsection \<open>Views\<close>

record mipmapReaderView =
  startSamples :: int
  endSamples :: int
  resolution :: int

text \<open>
  \<^verbatim>\<open>compression()\<close>: the span divided by the resolution, an integer division,
  which traps for \<^verbatim>\<open>resolution == 0\<close>.
\<close>

definition compression :: "mipmapReaderView \<Rightarrow> error + int" where
  "compression v =
     (case int_sub (endSamples v) (startSamples v) of
        Inl e \<Rightarrow> Inl e
      | Inr viewSpan \<Rightarrow> int_div viewSpan (resolution v))"

subsection \<open>mipmapReader\<close>

text \<open>
  The member \<^verbatim>\<open>length\<close> is the field \<open>lengthSamples\<close>. The buffer behind the
  pointer \<^verbatim>\<open>mipmap\<close> is a function from element index to the 64-bit word read
  there. The template parameter \<^verbatim>\<open>CHANNELS\<close> is an argument of \<open>read\<close>.
\<close>

record mipmapReader =
  finder :: mipmapChunkFinder
  mipmap :: "int \<Rightarrow> 64 word"
  levelCompression :: "int list"
  lengthSamples :: int
  chunkSize :: int
  baseLevelStep :: int
  allowOriginal :: bool

text \<open>The second loop of \<^verbatim>\<open>mipmapReader::init\<close> (lines 112 to 114), from index \<open>i\<close>.\<close>

function init_compression :: "int list \<Rightarrow> nat \<Rightarrow> nat \<Rightarrow> int list \<Rightarrow> error + int list" where
  "init_compression steps n i lc =
     (if i < n
      then (case int_mul (lc ! (i - 1)) (steps ! (i - 1)) of
              Inl e \<Rightarrow> Inl e
            | Inr c \<Rightarrow> init_compression steps n (Suc i) (lc[i := c]))
      else Inr lc)"
  by pat_completeness auto
termination
  by (relation "measure (\<lambda>(steps, n, i, lc). n - i)") auto

declare init_compression.simps [simp del]

text \<open>
  \<^verbatim>\<open>mipmapReader::init(int* levelSteps)\<close>. The caller's array is a list; the first
  loop copies its first \<^verbatim>\<open>LEVELS\<close> entries, and reads beyond a shorter one.
\<close>

definition mipmapReader_init :: "mipmapReader \<Rightarrow> int list \<Rightarrow> error + mipmapReader" where
  "mipmapReader_init r steps =
     (let n = LEVELS (finder r) in
      if length steps < n \<or> n = 0 then Inl OutOfBounds
      else
        let f = (finder r)\<lparr>levelSteps := take n steps\<rparr> in
        case init_compression steps n 1 ((levelCompression r)[0 := baseLevelStep r]) of
          Inl e \<Rightarrow> Inl e
        | Inr lc \<Rightarrow>
            (case init f of
               Inl e \<Rightarrow> Inl e
             | Inr f' \<Rightarrow> Inr (r\<lparr>finder := f', levelCompression := lc\<rparr>)))"

text \<open>
  \<^verbatim>\<open>double(reqViewSpan) / requested.resolution\<close>: a quotient of two 32-bit
  integers in double precision. A zero divisor gives an infinity or a NaN. The
  finite quotient is taken exact: the code only compares it with a 32-bit integer
  \<open>c\<close>, and the rounding to 53 bits cannot change that comparison. Rounding is
  monotone and \<open>c\<close> is a double, so a quotient at or above \<open>c\<close> stays there; a
  quotient \<open>a / b\<close> below \<open>c\<close> is below it by \<open>1 / \<bar>b\<bar>\<close> at least, and to round up to
  \<open>c\<close> it would have to be within \<open>\<bar>c\<bar> / 2 ^ 53\<close> of it, which needs
  \<open>\<bar>b * c\<bar> > 2 ^ 53\<close>, while \<open>\<bar>b * c\<bar>\<close> is then about \<open>\<bar>a\<bar> < 2 ^ 32\<close>.
\<close>

datatype quotient = Finite real | PlusInfinity | MinusInfinity | NaN

definition double_div :: "int \<Rightarrow> int \<Rightarrow> quotient" where
  "double_div a b =
     (if b \<noteq> 0 then Finite (real_of_int a / real_of_int b)
      else if 0 < a then PlusInfinity
      else if a < 0 then MinusInfinity
      else NaN)"

fun int_le_quotient :: "int \<Rightarrow> quotient \<Rightarrow> bool" where
  "int_le_quotient c (Finite x) = (real_of_int c \<le> x)"
| "int_le_quotient c PlusInfinity = True"
| "int_le_quotient c MinusInfinity = False"
| "int_le_quotient c NaN = False"

text \<open>The search loop of \<^verbatim>\<open>requestView\<close> (lines 123 to 127), from index \<open>i\<close> down.\<close>

function requestView_scan :: "int list \<Rightarrow> quotient \<Rightarrow> int \<Rightarrow> int" where
  "requestView_scan lc compr i =
     (if 0 \<le> i
      then (if int_le_quotient (lc ! nat i) compr then i else requestView_scan lc compr (i - 1))
      else i)"
  by pat_completeness auto
termination
  by (relation "measure (\<lambda>(lc, compr, i). nat (i + 1))") auto

declare requestView_scan.simps [simp del]

text \<open>
  The block of \<^verbatim>\<open>requestView\<close> that snaps the request to the chunks of a level
  with compression \<open>c\<close> (lines 138 to 144): the view it returns.
\<close>

definition requestView_snap ::
  "int \<Rightarrow> int \<Rightarrow> mipmapReaderView \<Rightarrow> error + mipmapReaderView" where
  "requestView_snap c chunkSz requested =
     (case int_mul c chunkSz of
        Inl e \<Rightarrow> Inl e
      | Inr roundTo \<Rightarrow>
     (case int_div (startSamples requested) roundTo of
        Inl e \<Rightarrow> Inl e
      | Inr s0 \<Rightarrow>
     (case int_mul s0 roundTo of
        Inl e \<Rightarrow> Inl e
      | Inr s \<Rightarrow>
     (case int_add (endSamples requested) roundTo of
        Inl e \<Rightarrow> Inl e
      | Inr e0 \<Rightarrow>
     (case int_sub e0 1 of
        Inl e \<Rightarrow> Inl e
      | Inr e1 \<Rightarrow>
     (case int_div e1 roundTo of
        Inl e \<Rightarrow> Inl e
      | Inr e2 \<Rightarrow>
     (case int_mul e2 roundTo of
        Inl e \<Rightarrow> Inl e
      | Inr e3 \<Rightarrow>
     (case int_sub e3 s of
        Inl e \<Rightarrow> Inl e
      | Inr width \<Rightarrow>
     (case int_div width c of
        Inl e \<Rightarrow> Inl e
      | Inr res \<Rightarrow> Inr \<lparr>startSamples = s, endSamples = e3, resolution = res\<rparr>)))))))))"

text \<open>
  \<^verbatim>\<open>requestView\<close> returns the view it resolved and the level \<open>i\<close> that its
  diagnostic line prints: \<open>-1\<close> for the original data.
\<close>

definition requestView :: "mipmapReader \<Rightarrow> mipmapReaderView \<Rightarrow> error + mipmapReaderView \<times> int" where
  "requestView r requested =
     (if \<not> (0 \<le> startSamples requested \<and> startSamples requested < lengthSamples r)
      then Inl AssertionFailed
      else if \<not> (startSamples requested < endSamples requested \<and>
                  endSamples requested \<le> lengthSamples r)
      then Inl AssertionFailed
      else
        case int_sub (endSamples requested) (startSamples requested) of
          Inl e \<Rightarrow> Inl e
        | Inr reqViewSpan \<Rightarrow>
            let compr = double_div reqViewSpan (resolution requested);
                i = requestView_scan (levelCompression r) compr
                      (int (length (levelCompression r)) - 1)
            in
              if i < 0 \<and> allowOriginal r
              then
                (case int_sub (endSamples requested) (startSamples requested) of
                   Inl e \<Rightarrow> Inl e
                 | Inr res \<Rightarrow>
                     let returned = requested\<lparr>resolution := res\<rparr>
                     in if endSamples returned \<le> lengthSamples r then Inr (returned, i)
                        else Inl AssertionFailed)
              else
                (let i = (if i < 0 then 0 else i) in
                 if length (levelCompression r) = 0 then Inl OutOfBounds
                 else
                   case requestView_snap (levelCompression r ! nat i) (chunkSize r) requested of
                     Inl e \<Rightarrow> Inl e
                   | Inr returned \<Rightarrow>
                       if endSamples returned \<le> lengthSamples r then Inr (returned, i)
                       else Inl AssertionFailed))"

subsection \<open>Extraction\<close>

text \<open>
  The double arithmetic of the two readers is a parameter, so that what is proved
  of them holds for the arithmetic of the machine: \<open>to_double\<close> is the conversion
  of an integer to \<^verbatim>\<open>double\<close>; \<open>dadd\<close>, \<open>dsub\<close>, \<open>dmul\<close> and \<open>ddiv\<close> are \<^verbatim>\<open>+\<close>, \<^verbatim>\<open>-\<close>,
  \<^verbatim>\<open>*\<close> and \<^verbatim>\<open>/\<close>; \<open>dround\<close> is \<^verbatim>\<open>round\<close>; \<open>to_INTTYPE\<close> is the conversion
  \<^verbatim>\<open>INTTYPE(x)\<close> to the integer type of the destination, and \<open>valMin\<close> and \<open>valMax\<close>
  are the limits of that type. The functions \<^verbatim>\<open>clamp\<close> and \<^verbatim>\<open>spectrumValue\<close>
  are not defined in this file of the source (it includes \<^verbatim>\<open>common.H\<close>), and are
  parameters too.
\<close>

record ('d, 'o) arith =
  to_double :: "int \<Rightarrow> 'd"
  dadd :: "'d \<Rightarrow> 'd \<Rightarrow> 'd"
  dsub :: "'d \<Rightarrow> 'd \<Rightarrow> 'd"
  dmul :: "'d \<Rightarrow> 'd \<Rightarrow> 'd"
  ddiv :: "'d \<Rightarrow> 'd \<Rightarrow> 'd"
  dround :: "'d \<Rightarrow> 'd"
  to_INTTYPE :: "'d \<Rightarrow> 'o"
  valMin :: int
  valMax :: int
  clamp :: "'d \<Rightarrow> 'd \<Rightarrow> 'd \<Rightarrow> 'd"
  spectrumValue :: "int \<Rightarrow> int \<Rightarrow> 'd"

text \<open>
  The factor \<^verbatim>\<open>A\<close> and the offset \<^verbatim>\<open>B\<close> of the two readers (lines 160, 161, 202
  and 203), and the value \<^verbatim>\<open>INTTYPE(round((x - yLower)*A + B))\<close> that they write.
\<close>

definition scale_A :: "('d, 'o) arith \<Rightarrow> 'd \<Rightarrow> 'd \<Rightarrow> 'd" where
  "scale_A ar yLower yUpper =
     ddiv ar (dsub ar (to_double ar (valMax ar)) (to_double ar (valMin ar))) (dsub ar yUpper yLower)"

definition scale_B :: "('d, 'o) arith \<Rightarrow> 'd" where
  "scale_B ar = to_double ar (valMin ar)"

definition rescale :: "('d, 'o) arith \<Rightarrow> 'd \<Rightarrow> 'd \<Rightarrow> 'd \<Rightarrow> 'd \<Rightarrow> 'o" where
  "rescale ar yLower A B x = to_INTTYPE ar (dround ar (dadd ar (dmul ar (dsub ar x yLower) A) B))"

text \<open>The two signed 32-bit halves of an element.\<close>

definition unpack_lower :: "64 word \<Rightarrow> 32 word" where
  "unpack_lower element = ucast (element AND 0xffffffff)"

definition unpack_upper :: "64 word \<Rightarrow> 32 word" where
  "unpack_upper element = ucast (drop_bit 32 element AND 0xffffffff)"

text \<open>The level search of \<^verbatim>\<open>read\<close> and \<^verbatim>\<open>readSpectrum\<close>, from index \<open>i\<close>.\<close>

function find_level :: "int list \<Rightarrow> int \<Rightarrow> nat \<Rightarrow> nat" where
  "find_level lc c i =
     (if i < length lc then (if lc ! i = c then i else find_level lc c (Suc i)) else i)"
  by pat_completeness auto
termination
  by (relation "measure (\<lambda>(lc, c, i). length lc - i)") auto

declare find_level.simps [simp del]

text \<open>
  The inner loop of \<^verbatim>\<open>read\<close> (lines 179 to 187), from \<open>x\<close>. The counter \<open>x\<close>
  stays below \<open>chunkElements\<close>, so its increment cannot overflow.
\<close>

function read_elements ::
  "('d, 'o) arith \<Rightarrow> (int \<Rightarrow> 64 word) \<Rightarrow> 'd \<Rightarrow> 'd \<Rightarrow> 'd \<Rightarrow> 'd \<Rightarrow> int \<Rightarrow> int \<Rightarrow> int \<Rightarrow> int
     \<Rightarrow> (int \<Rightarrow> 'o) \<Rightarrow> error + (int \<Rightarrow> 'o)" where
  "read_elements ar mm yLower yUpper A B offs dstOffs chunkElements x dst =
     (if x < chunkElements
      then
        (case int_add offs x of
           Inl e \<Rightarrow> Inl e
         | Inr a \<Rightarrow>
        (case int_add dstOffs x of
           Inl e \<Rightarrow> Inl e
         | Inr p \<Rightarrow>
        (case int_mul p 2 of
           Inl e \<Rightarrow> Inl e
         | Inr p0 \<Rightarrow>
        (case int_add p0 1 of
           Inl e \<Rightarrow> Inl e
         | Inr p1 \<Rightarrow>
             let element = mm a;
                 lower = to_double ar (sint (unpack_lower element));
                 upper = to_double ar (sint (unpack_upper element));
                 lower = clamp ar lower yLower yUpper;
                 upper = clamp ar upper yLower yUpper;
                 dst = dst(p0 := rescale ar yLower A B lower);
                 dst = dst(p1 := rescale ar yLower A B upper)
             in read_elements ar mm yLower yUpper A B offs dstOffs chunkElements (x + 1) dst))))
      else Inr dst)"
  by pat_completeness auto
termination
  by (relation "measure (\<lambda>(ar, mm, yLower, yUpper, A, B, offs, dstOffs, chunkElements, x, dst).
        nat (chunkElements - x))") auto

declare read_elements.simps [simp del]

text \<open>
  The \<^verbatim>\<open>while(true)\<close> loop of \<^verbatim>\<open>read\<close> (lines 177 to 191). It never ends when
  \<open>chunkElements\<close> is not positive and the destination larger than one step:
  the result \<open>None\<close>.
\<close>

partial_function (option) read_loop ::
  "('d, 'o) arith \<Rightarrow> (int \<Rightarrow> 64 word) \<Rightarrow> 'd \<Rightarrow> 'd \<Rightarrow> 'd \<Rightarrow> 'd \<Rightarrow> int \<Rightarrow> int
     \<Rightarrow> mipmapChunkFinder \<Rightarrow> (int \<Rightarrow> 'o) \<Rightarrow> int
     \<Rightarrow> (error + mipmapChunkFinder \<times> (int \<Rightarrow> 'o)) option" where
  "read_loop ar mm yLower yUpper A B chunkElements dstElements f dst dstOffs =
     (case int_mul (currIndex f) chunkElements of
        Inl e \<Rightarrow> Some (Inl e)
      | Inr offs \<Rightarrow>
     (case read_elements ar mm yLower yUpper A B offs dstOffs chunkElements 0 dst of
        Inl e \<Rightarrow> Some (Inl e)
      | Inr dst \<Rightarrow>
     (case int_add dstOffs chunkElements of
        Inl e \<Rightarrow> Some (Inl e)
      | Inr dstOffs \<Rightarrow>
          if dstElements \<le> dstOffs then Some (Inr (f, dst))
          else (case advanceChunk f of
                  Inl e \<Rightarrow> Some (Inl e)
                | Inr f' \<Rightarrow>
                    read_loop ar mm yLower yUpper A B chunkElements dstElements f' dst dstOffs))))"

text \<open>
  \<^verbatim>\<open>read\<close> from line 171 on, with the level \<open>i\<close> found and the compression
  \<open>compr\<close> of the view.
\<close>

definition read_from ::
  "('d, 'o) arith \<Rightarrow> int \<Rightarrow> mipmapReader \<Rightarrow> mipmapReaderView \<Rightarrow> (int \<Rightarrow> 'o) \<Rightarrow> 'd \<Rightarrow> 'd \<Rightarrow> nat \<Rightarrow> int
     \<Rightarrow> (error + mipmapReader \<times> (int \<Rightarrow> 'o)) option" where
  "read_from ar CHANNELS r view dst yLower yUpper i compr =
     (case int_div (startSamples view) compr of
        Inl e \<Rightarrow> Some (Inl e)
      | Inr mipmapStart \<Rightarrow>
     (case int_div mipmapStart (chunkSize r) of
        Inl e \<Rightarrow> Some (Inl e)
      | Inr chunkIndex \<Rightarrow>
     (case goToChunk (finder r) (int i) chunkIndex of
        Inl e \<Rightarrow> Some (Inl e)
      | Inr f \<Rightarrow>
     (case int_mul (chunkSize r) CHANNELS of
        Inl e \<Rightarrow> Some (Inl e)
      | Inr chunkElements \<Rightarrow>
     (case int_mul (resolution view) CHANNELS of
        Inl e \<Rightarrow> Some (Inl e)
      | Inr dstElements \<Rightarrow>
     (case read_loop ar (mipmap r) yLower yUpper (scale_A ar yLower yUpper) (scale_B ar)
             chunkElements dstElements f dst 0 of
        None \<Rightarrow> None
      | Some (Inl e) \<Rightarrow> Some (Inl e)
      | Some (Inr (f', dst')) \<Rightarrow> Some (Inr (r\<lparr>finder := f'\<rparr>, dst'))))))))"

text \<open>
  \<^verbatim>\<open>read\<close>: the compression of the view (a division by the resolution), the
  search of the level with exactly that compression, and the throw when there is
  none.
\<close>

definition read ::
  "('d, 'o) arith \<Rightarrow> int \<Rightarrow> mipmapReader \<Rightarrow> mipmapReaderView \<Rightarrow> (int \<Rightarrow> 'o) \<Rightarrow> 'd \<Rightarrow> 'd
     \<Rightarrow> (error + mipmapReader \<times> (int \<Rightarrow> 'o)) option" where
  "read ar CHANNELS r view dst yLower yUpper =
     (case int_sub (endSamples view) (startSamples view) of
        Inl e \<Rightarrow> Some (Inl e)
      | Inr viewSpan \<Rightarrow>
     (case int_div viewSpan (resolution view) of
        Inl e \<Rightarrow> Some (Inl e)
      | Inr compr \<Rightarrow>
          let i = find_level (levelCompression r) compr 0
          in if i = length (levelCompression r) then Some (Inl LogicError)
             else read_from ar CHANNELS r view dst yLower yUpper i compr))"

text \<open>
  One sample of \<^verbatim>\<open>readSpectrum\<close> (lines 227 to 238): the pair written to the two
  destination slots. The four bounds are 32-bit words, and their negation is the
  one of the words, two's complement: for the least integer, where the negation
  of C++ overflows, it is what the negation of the machine gives, the least
  integer again.
\<close>

definition spectrum_sample ::
  "('d, 'o) arith \<Rightarrow> 'd \<Rightarrow> 'd \<Rightarrow> 'd \<Rightarrow> 'd \<Rightarrow> 64 word \<Rightarrow> 64 word \<Rightarrow> 'o \<times> 'o" where
  "spectrum_sample ar yLower yUpper A B elementRe elementIm =
     (let lowerRe = unpack_lower elementRe;
          upperRe = unpack_upper elementRe;
          lowerIm = unpack_lower elementIm;
          upperIm = unpack_upper elementIm;
          upperRe = (if upperRe <s - lowerRe then - lowerRe else upperRe);
          upperIm = (if upperIm <s - lowerIm then - lowerIm else upperIm);
          tmp = spectrumValue ar (sint upperRe) (sint upperIm);
          tmp = clamp ar tmp yLower yUpper
      in (rescale ar yLower A B tmp, rescale ar yLower A B tmp))"

text \<open>The inner loop of \<^verbatim>\<open>readSpectrum\<close> (lines 226 to 239), from \<open>x\<close>.\<close>

function readSpectrum_elements ::
  "('d, 'o) arith \<Rightarrow> (int \<Rightarrow> 64 word) \<Rightarrow> 'd \<Rightarrow> 'd \<Rightarrow> 'd \<Rightarrow> 'd \<Rightarrow> int \<Rightarrow> int \<Rightarrow> int \<Rightarrow> int
     \<Rightarrow> (int \<Rightarrow> 'o) \<Rightarrow> error + (int \<Rightarrow> 'o)" where
  "readSpectrum_elements ar mm yLower yUpper A B offs dstOffs chunkSz x dst =
     (if x < chunkSz
      then
        (case int_mul x 2 of
           Inl e \<Rightarrow> Inl e
         | Inr x2 \<Rightarrow>
        (case int_add offs x2 of
           Inl e \<Rightarrow> Inl e
         | Inr a0 \<Rightarrow>
        (case int_add a0 1 of
           Inl e \<Rightarrow> Inl e
         | Inr a1 \<Rightarrow>
        (case int_add dstOffs x of
           Inl e \<Rightarrow> Inl e
         | Inr p \<Rightarrow>
        (case int_mul p 2 of
           Inl e \<Rightarrow> Inl e
         | Inr p0 \<Rightarrow>
        (case int_add p0 1 of
           Inl e \<Rightarrow> Inl e
         | Inr p1 \<Rightarrow>
             let (lo, hi) = spectrum_sample ar yLower yUpper A B (mm a0) (mm a1)
             in readSpectrum_elements ar mm yLower yUpper A B offs dstOffs chunkSz (x + 1)
                  ((dst(p0 := lo))(p1 := hi))))))))
      else Inr dst)"
  by pat_completeness auto
termination
  by (relation "measure (\<lambda>(ar, mm, yLower, yUpper, A, B, offs, dstOffs, chunkSz, x, dst).
        nat (chunkSz - x))") auto

declare readSpectrum_elements.simps [simp del]

text \<open>The \<^verbatim>\<open>while(true)\<close> loop of \<^verbatim>\<open>readSpectrum\<close> (lines 224 to 243).\<close>

partial_function (option) readSpectrum_loop ::
  "('d, 'o) arith \<Rightarrow> (int \<Rightarrow> 64 word) \<Rightarrow> 'd \<Rightarrow> 'd \<Rightarrow> 'd \<Rightarrow> 'd \<Rightarrow> int \<Rightarrow> int
     \<Rightarrow> mipmapChunkFinder \<Rightarrow> (int \<Rightarrow> 'o) \<Rightarrow> int
     \<Rightarrow> (error + mipmapChunkFinder \<times> (int \<Rightarrow> 'o)) option" where
  "readSpectrum_loop ar mm yLower yUpper A B chunkSz dstElements f dst dstOffs =
     (case int_mul (currIndex f) 2 of
        Inl e \<Rightarrow> Some (Inl e)
      | Inr c2 \<Rightarrow>
     (case int_mul c2 chunkSz of
        Inl e \<Rightarrow> Some (Inl e)
      | Inr offs \<Rightarrow>
     (case readSpectrum_elements ar mm yLower yUpper A B offs dstOffs chunkSz 0 dst of
        Inl e \<Rightarrow> Some (Inl e)
      | Inr dst \<Rightarrow>
     (case int_add dstOffs chunkSz of
        Inl e \<Rightarrow> Some (Inl e)
      | Inr dstOffs \<Rightarrow>
          if dstElements \<le> dstOffs then Some (Inr (f, dst))
          else (case advanceChunk f of
                  Inl e \<Rightarrow> Some (Inl e)
                | Inr f' \<Rightarrow>
                    readSpectrum_loop ar mm yLower yUpper A B chunkSz dstElements f' dst dstOffs)))))"

text \<open>
  The logical chunk index at which \<^verbatim>\<open>readSpectrum\<close> starts (lines 213 to 218),
  with the level \<open>i\<close> found: the first chunk of the view, shifted by half the
  chunks of the level.
\<close>

definition readSpectrum_index :: "mipmapReader \<Rightarrow> mipmapReaderView \<Rightarrow> nat \<Rightarrow> int \<Rightarrow> error + int" where
  "readSpectrum_index r view i compr =
     (case int_div (lengthSamples r) (levelCompression r ! i) of
        Inl e \<Rightarrow> Inl e
      | Inr t0 \<Rightarrow>
     (case int_div t0 (chunkSize r) of
        Inl e \<Rightarrow> Inl e
      | Inr totalChunks \<Rightarrow>
     (case int_div (startSamples view) compr of
        Inl e \<Rightarrow> Inl e
      | Inr mipmapStart \<Rightarrow>
     (case int_div mipmapStart (chunkSize r) of
        Inl e \<Rightarrow> Inl e
      | Inr chunkIndex \<Rightarrow>
     (case int_div totalChunks 2 of
        Inl e \<Rightarrow> Inl e
      | Inr half \<Rightarrow>
     (case int_add chunkIndex half of
        Inl e \<Rightarrow> Inl e
      | Inr chunkIndex \<Rightarrow>
          if totalChunks \<le> chunkIndex then int_sub chunkIndex totalChunks
          else Inr chunkIndex))))))"

text \<open>\<^verbatim>\<open>readSpectrum\<close> from line 213 on, with the level \<open>i\<close> found.\<close>

definition readSpectrum_from ::
  "('d, 'o) arith \<Rightarrow> mipmapReader \<Rightarrow> mipmapReaderView \<Rightarrow> (int \<Rightarrow> 'o) \<Rightarrow> 'd \<Rightarrow> 'd \<Rightarrow> nat \<Rightarrow> int
     \<Rightarrow> (error + mipmapReader \<times> (int \<Rightarrow> 'o)) option" where
  "readSpectrum_from ar r view dst yLower yUpper i compr =
     (case readSpectrum_index r view i compr of
        Inl e \<Rightarrow> Some (Inl e)
      | Inr chunkIndex \<Rightarrow>
          (case goToChunk (finder r) (int i) chunkIndex of
             Inl e \<Rightarrow> Some (Inl e)
           | Inr f \<Rightarrow>
               (case readSpectrum_loop ar (mipmap r) yLower yUpper (scale_A ar yLower yUpper)
                       (scale_B ar) (chunkSize r) (resolution view) f dst 0 of
                  None \<Rightarrow> None
                | Some (Inl e) \<Rightarrow> Some (Inl e)
                | Some (Inr (f', dst')) \<Rightarrow> Some (Inr (r\<lparr>finder := f'\<rparr>, dst')))))"

text \<open>\<^verbatim>\<open>readSpectrum\<close>, with \<^verbatim>\<open>CHANNELS == 2\<close>.\<close>

definition readSpectrum ::
  "('d, 'o) arith \<Rightarrow> mipmapReader \<Rightarrow> mipmapReaderView \<Rightarrow> (int \<Rightarrow> 'o) \<Rightarrow> 'd \<Rightarrow> 'd
     \<Rightarrow> (error + mipmapReader \<times> (int \<Rightarrow> 'o)) option" where
  "readSpectrum ar r view dst yLower yUpper =
     (case int_sub (endSamples view) (startSamples view) of
        Inl e \<Rightarrow> Some (Inl e)
      | Inr viewSpan \<Rightarrow>
     (case int_div viewSpan (resolution view) of
        Inl e \<Rightarrow> Some (Inl e)
      | Inr compr \<Rightarrow>
          let i = find_level (levelCompression r) compr 0
          in if i = length (levelCompression r) then Some (Inl LogicError)
             else readSpectrum_from ar r view dst yLower yUpper i compr))"

section \<open>Specification-level functions\<close>

subsection \<open>Digits, weights and carries\<close>

text \<open>
  The mixed-radix digits of \<open>q\<close> with the bases \<open>ss\<close>, least significant first, by
  successive remainder and division.
\<close>

fun mixed_radix :: "int list \<Rightarrow> int \<Rightarrow> int list" where
  "mixed_radix [] q = []"
| "mixed_radix (s # ss) q = (q mod s) # mixed_radix ss (q div s)"

text \<open>The sum of the products of digits and weights.\<close>

fun wsum :: "int list \<Rightarrow> int list \<Rightarrow> int" where
  "wsum (d # ds) (z # zs) = d * z + wsum ds zs"
| "wsum ds zs = 0"

text \<open>
  The subtree sizes from a level of size \<open>z\<close> upwards, \<open>z' = z * s + 1\<close>, and the
  size that a level above the last one would have.
\<close>

fun sizes_from :: "int \<Rightarrow> int list \<Rightarrow> int list" where
  "sizes_from z [] = []"
| "sizes_from z (s # ss) = z # sizes_from (z * s + 1) ss"

fun top_size :: "int \<Rightarrow> int list \<Rightarrow> int" where
  "top_size z [] = z"
| "top_size z (s # ss) = top_size (z * s + 1) ss"

text \<open>
  The subtree sizes fit the type \<^verbatim>\<open>int\<close>: from a level of size \<open>z\<close> upwards, every
  product \<open>z * s\<close> and every size \<open>z * s + 1\<close> of a level that has one above it;
  and for all the steps, also the product of the last size and the last step,
  which is the total chunk count.
\<close>

fun loop_fits :: "int \<Rightarrow> int list \<Rightarrow> bool" where
  "loop_fits z (s # t # ss) = (int_ok (z * s) \<and> int_ok (z * s + 1) \<and> loop_fits (z * s + 1) (t # ss))"
| "loop_fits z ss = True"

definition sizes_fit :: "int list \<Rightarrow> bool" where
  "sizes_fit steps =
     (loop_fits 1 steps \<and>
      int_ok (sizes_from 1 steps ! (length steps - 1) * steps ! (length steps - 1)))"

text \<open>
  The increment with carry of a digit list, and the number of positions it visits.
\<close>

fun carry :: "int list \<Rightarrow> int list \<Rightarrow> int list \<times> int" where
  "carry (d # ds) (s # ss) =
     (if d \<noteq> s - 1 then ((d + 1) # ds, 1)
      else (let (ds', c) = carry ds ss in (0 # ds', c + 1)))"
| "carry ds ss = (ds, 0)"

text \<open>Digits within their bases.\<close>

definition in_range :: "int list \<Rightarrow> int list \<Rightarrow> bool" where
  "in_range ds ss = list_all2 (\<lambda>d s. 0 \<le> d \<and> d < s) ds ss"

subsection \<open>Configurations and positions of the chunk finder\<close>

text \<open>
  A valid configuration before \<^verbatim>\<open>init\<close>: at least one level, the three arrays of
  that length, and every step at least 1.
\<close>

definition valid_config :: "mipmapChunkFinder \<Rightarrow> bool" where
  "valid_config f =
     (0 < LEVELS f \<and> length (levelSizes f) = LEVELS f \<and> length (levelIndex f) = LEVELS f \<and>
      (\<forall>s\<in>set (levelSteps f). 1 \<le> s))"

text \<open>
  What \<^verbatim>\<open>init\<close> establishes on a valid configuration when it returns: the
  sizes and the total chunk count, which is an \<^verbatim>\<open>int\<close>.
\<close>

definition ready :: "mipmapChunkFinder \<Rightarrow> bool" where
  "ready f =
     (levelSteps f \<noteq> [] \<and> (\<forall>s\<in>set (levelSteps f). 1 \<le> s) \<and>
      levelSizes f = sizes_from 1 (levelSteps f) \<and>
      length (levelIndex f) = length (levelSteps f) \<and>
      totalChunkCount f = top_size 1 (levelSteps f) - 1 \<and>
      totalChunkCount f \<le> 2147483647)"

text \<open>The finder positioned at the logical index \<open>q\<close> of level \<open>L\<close>.\<close>

definition located :: "mipmapChunkFinder \<Rightarrow> nat \<Rightarrow> int \<Rightarrow> mipmapChunkFinder" where
  "located f L q =
     f\<lparr>levelIndex := take L (levelIndex f) @ mixed_radix (drop L (levelSteps f)) q,
       currLevel := int L,
       currIndex := wsum (mixed_radix (drop L (levelSteps f)) q) (drop L (levelSizes f))
                      + levelSizes f ! L - 1\<rparr>"

text \<open>The number of nodes of level \<open>L\<close>: the product of the steps from \<open>L\<close> upwards.\<close>

definition nodes_at :: "mipmapChunkFinder \<Rightarrow> nat \<Rightarrow> int" where
  "nodes_at f L = prod_list (drop L (levelSteps f))"

text \<open>The physical slot after \<open>k\<close> calls of \<^verbatim>\<open>advanceChunk\<close>.\<close>

definition slot :: "mipmapChunkFinder \<Rightarrow> nat \<Rightarrow> int option" where
  "slot g k = (case advances k g of Inl e \<Rightarrow> None | Inr h \<Rightarrow> Some (currIndex h))"

text \<open>The configuration of the concrete scenario: two levels of four children each.\<close>

definition finder44 :: mipmapChunkFinder where
  "finder44 = \<lparr>levelSteps = [4, 4], levelSizes = [1, 5], levelIndex = [0, 0],
                totalChunkCount = 20, currLevel = 0, currIndex = 0\<rparr>"

definition finder44_at7 :: mipmapChunkFinder where
  "finder44_at7 = finder44\<lparr>levelIndex := [3, 1], currIndex := 8\<rparr>"

text \<open>
  A configuration of two levels of 46340 children each, whose 2147441940 chunks are
  within the type \<^verbatim>\<open>int\<close>, and its finder at the last node of level 1.
\<close>

definition finder46340 :: mipmapChunkFinder where
  "finder46340 = \<lparr>levelSteps = [46340, 46340], levelSizes = [1, 46341], levelIndex = [0, 0],
                   totalChunkCount = 2147441940, currLevel = 0, currIndex = 0\<rparr>"

definition finder46340_last :: mipmapChunkFinder where
  "finder46340_last =
     finder46340\<lparr>levelIndex := [0, 46339], currLevel := 1, currIndex := 2147441939\<rparr>"

subsection \<open>Views and readers\<close>

text \<open>
  The view snapped to the chunks of a level with compression \<open>c\<close>: the start down
  and the end up to the nearest multiple of \<open>roundTo\<close>, and the points recomputed.
\<close>

definition snapped :: "int \<Rightarrow> int \<Rightarrow> mipmapReaderView \<Rightarrow> mipmapReaderView" where
  "snapped c roundTo v =
     \<lparr>startSamples = startSamples v div roundTo * roundTo,
      endSamples = (endSamples v + roundTo - 1) div roundTo * roundTo,
      resolution =
        ((endSamples v + roundTo - 1) div roundTo * roundTo - startSamples v div roundTo * roundTo)
          div c\<rparr>"

text \<open>
  Level \<open>i\<close> is at least as detailed as the request: its compression is at most the
  span divided by the resolution (any level, when the resolution is 0).
\<close>

definition qualifies :: "mipmapReader \<Rightarrow> mipmapReaderView \<Rightarrow> nat \<Rightarrow> bool" where
  "qualifies r v i =
     (if resolution v = 0 then True
      else real_of_int (levelCompression r ! i)
             \<le> real_of_int (endSamples v - startSamples v) / real_of_int (resolution v))"

text \<open>
  The snapping of a request to chunks of \<open>roundTo\<close> samples stays within the type
  \<^verbatim>\<open>int\<close>: \<open>roundTo\<close> itself, and the sum \<open>endSamples + roundTo\<close> that line 142
  computes first.
\<close>

definition snap_fits :: "int \<Rightarrow> mipmapReaderView \<Rightarrow> bool" where
  "snap_fits roundTo v \<longleftrightarrow> roundTo \<le> 2147483647 \<and> endSamples v + roundTo \<le> 2147483647"

text \<open>
  A reader whose level compressions and chunk size are positive, and whose length
  is an \<^verbatim>\<open>int\<close>.
\<close>

definition valid_reader :: "mipmapReader \<Rightarrow> bool" where
  "valid_reader r =
     (levelCompression r \<noteq> [] \<and> (\<forall>c\<in>set (levelCompression r). 0 < c) \<and> 0 < chunkSize r \<and>
      lengthSamples r \<le> 2147483647)"

text \<open>The precondition of the caller: \<open>0 \<le> start < end \<le> length\<close>.\<close>

definition in_bounds :: "mipmapReader \<Rightarrow> mipmapReaderView \<Rightarrow> bool" where
  "in_bounds r v =
     (0 \<le> startSamples v \<and> startSamples v < endSamples v \<and> endSamples v \<le> lengthSamples r)"

text \<open>
  A reader of two levels as its member initialisers leave it, and the same reader
  after \<^verbatim>\<open>init\<close> with the steps \<open>[4, 4]\<close>.
\<close>

definition blank_reader :: "int \<Rightarrow> mipmapReader" where
  "blank_reader len =
     \<lparr>finder = new_finder [0, 0], mipmap = (\<lambda>a. 0), levelCompression = [0, 0],
      lengthSamples = len, chunkSize = 16, baseLevelStep = 4, allowOriginal = True\<rparr>"

definition reader_4_16 :: "int \<Rightarrow> mipmapReader" where
  "reader_4_16 len =
     \<lparr>finder = finder44, mipmap = (\<lambda>a. 0), levelCompression = [4, 16],
      lengthSamples = len, chunkSize = 16, baseLevelStep = 4, allowOriginal = True\<rparr>"

text \<open>
  The arithmetic of the real numbers, in which no operation rounds: \<^verbatim>\<open>round\<close>
  is the rounding to the nearest integer, half away from zero, the conversion to
  the integer type cuts the fraction off, and \<^verbatim>\<open>clamp(x, lo, hi)\<close> is \<open>lo\<close>
  below \<open>lo\<close>, \<open>hi\<close> above \<open>hi\<close> and \<open>x\<close> between them. The limits of the integer
  type and the function \<^verbatim>\<open>spectrumValue\<close> are arguments.
\<close>

definition cround :: "real \<Rightarrow> real" where
  "cround x = (if 0 \<le> x then of_int \<lfloor>x + 1 / 2\<rfloor> else of_int \<lceil>x - 1 / 2\<rceil>)"

definition real_arith :: "int \<Rightarrow> int \<Rightarrow> (int \<Rightarrow> int \<Rightarrow> real) \<Rightarrow> (real, int) arith" where
  "real_arith vmin vmax sv =
     \<lparr>to_double = real_of_int, dadd = (\<lambda>x y. x + y), dsub = (\<lambda>x y. x - y),
      dmul = (\<lambda>x y. x * y), ddiv = (\<lambda>x y. x / y), dround = cround,
      to_INTTYPE = (\<lambda>x. if 0 \<le> x then \<lfloor>x\<rfloor> else \<lceil>x\<rceil>),
      valMin = vmin, valMax = vmax,
      clamp = (\<lambda>x lo hi. if x < lo then lo else if hi < x then hi else x),
      spectrumValue = sv\<rparr>"

text \<open>The 64-bit element that packs a lower bound (low half) and an upper bound.\<close>

definition pack :: "32 word \<Rightarrow> 32 word \<Rightarrow> 64 word" where
  "pack lower upper = push_bit 32 (ucast upper) OR ucast lower"

text \<open>
  The value of one spectrum sample in the words of the specification: the
  estimates \<open>max(-lowerRe, upperRe)\<close> and \<open>max(-lowerIm, upperIm)\<close> of the two
  channels (on 32-bit integers, \<open>-\<close> their negation), the external function
  applied to them, the result clamped to
  \<open>[yLower, yUpper]\<close>, mapped through the affine transform with
  \<open>A = (valMax - valMin) / (yUpper - yLower)\<close> and \<open>B = valMin\<close>, and rounded to the
  nearest integer of the output type.
\<close>

definition spectrum_value :: "('d, 'o) arith \<Rightarrow> 'd \<Rightarrow> 'd \<Rightarrow> 64 word \<Rightarrow> 64 word \<Rightarrow> 'o" where
  "spectrum_value ar yLower yUpper elementRe elementIm =
     (let estimateRe = max (sint (- unpack_lower elementRe)) (sint (unpack_upper elementRe));
          estimateIm = max (sint (- unpack_lower elementIm)) (sint (unpack_upper elementIm));
          clamped = clamp ar (spectrumValue ar estimateRe estimateIm) yLower yUpper;
          A = ddiv ar (dsub ar (to_double ar (valMax ar)) (to_double ar (valMin ar)))
                (dsub ar yUpper yLower);
          B = to_double ar (valMin ar)
      in to_INTTYPE ar (dround ar (dadd ar (dmul ar (dsub ar clamped yLower) A) B)))"

text \<open>
  The value of the sample \<open>x\<close> of the physical chunk \<open>s\<close> of a buffer with two
  channels and chunks of \<open>cs\<close> samples: the real part is the element \<open>2x\<close> of the
  chunk and the imaginary part the element \<open>2x + 1\<close>.
\<close>

definition chunk_value ::
  "('d, 'o) arith \<Rightarrow> 'd \<Rightarrow> 'd \<Rightarrow> (int \<Rightarrow> 64 word) \<Rightarrow> int \<Rightarrow> int \<Rightarrow> int \<Rightarrow> 'o" where
  "chunk_value ar yLower yUpper mm cs s x =
     spectrum_value ar yLower yUpper (mm (s * 2 * cs + x * 2)) (mm (s * 2 * cs + x * 2 + 1))"

text \<open>
  A reader as \<^verbatim>\<open>mipmapReader::init\<close> leaves it on valid steps: positive
  compressions and chunk size, and the finder initialised with as many levels.
\<close>

definition reader_ready :: "mipmapReader \<Rightarrow> bool" where
  "reader_ready r =
     (valid_reader r \<and> ready (finder r) \<and> length (levelCompression r) = LEVELS (finder r))"

text \<open>
  A buffer whose element \<open>a\<close> has the lower bound \<open>-(a + 3)\<close> and the upper bound \<open>a\<close>,
  and the reader of the levels \<open>[4, 16]\<close> and length 1024 on it.
\<close>

definition ramp :: "int \<Rightarrow> 64 word" where
  "ramp a = pack (word_of_int (- (a + 3))) (word_of_int a)"

definition reader_ramp :: mipmapReader where
  "reader_ramp = (reader_4_16 1024)\<lparr>mipmap := ramp\<rparr>"

text \<open>The compressions of the levels: each the one below times its step.\<close>

fun compression_from :: "int \<Rightarrow> int list \<Rightarrow> int list" where
  "compression_from c [] = []"
| "compression_from c (s # ss) = c # compression_from (c * s) ss"

text \<open>The compressions fit the type \<^verbatim>\<open>int\<close>: every product that the loop computes.\<close>

fun compression_fits :: "int \<Rightarrow> int list \<Rightarrow> bool" where
  "compression_fits c (s # t # ss) = (int_ok (c * s) \<and> compression_fits (c * s) (t # ss))"
| "compression_fits c ss = True"

section \<open>Lemmas\<close>

subsection \<open>Division, digits and carries\<close>

lemma cdiv_nonneg: "0 \<le> a \<Longrightarrow> 0 < b \<Longrightarrow> cdiv a b = a div b"
  by (cases "a = 0") (simp_all add: cdiv_def)

lemma cmod_nonneg: "0 \<le> a \<Longrightarrow> 0 < b \<Longrightarrow> cmod a b = a mod b"
  by (simp add: cmod_def cdiv_nonneg minus_mult_div_eq_mod)

lemma int_okI: "0 \<le> x \<Longrightarrow> x \<le> 2147483647 \<Longrightarrow> int_ok x"
  by (simp add: int_ok_def)

lemmas int_ops = int_add_def int_sub_def int_mul_def int_div_def int_mod_def int_ok_def

lemma int_add_eq: "int_ok (a + b) \<Longrightarrow> int_add a b = Inr (a + b)"
  by (simp add: int_add_def)

lemma int_sub_eq: "int_ok (a - b) \<Longrightarrow> int_sub a b = Inr (a - b)"
  by (simp add: int_sub_def)

lemma int_mul_eq: "int_ok (a * b) \<Longrightarrow> int_mul a b = Inr (a * b)"
  by (simp add: int_mul_def)

lemma int_div_pos: "0 \<le> a \<Longrightarrow> 0 < b \<Longrightarrow> int_div a b = Inr (a div b)"
  by (simp add: int_div_def cdiv_nonneg)

lemma int_mod_pos: "0 \<le> a \<Longrightarrow> 0 < b \<Longrightarrow> int_mod a b = Inr (a mod b)"
  by (simp add: int_mod_def cmod_nonneg)

lemma length_sizes_from [simp]: "length (sizes_from z ss) = length ss"
  by (induction ss arbitrary: z) auto

lemma length_mixed_radix [simp]: "length (mixed_radix ss q) = length ss"
  by (induction ss arbitrary: q) auto

lemma succ_mod_nowrap:
  fixes q s :: int
  assumes "0 < s" "q mod s \<noteq> s - 1"
  shows "(q + 1) mod s = q mod s + 1" and "(q + 1) div s = q div s"
proof -
  have r: "0 \<le> q mod s" "q mod s < s"
    using assms(1) by simp_all
  have e: "q + 1 = s * (q div s) + (q mod s + 1)"
    by simp
  have b: "0 \<le> q mod s + 1" "q mod s + 1 < s"
    using r assms(2) by linarith+
  show "(q + 1) mod s = q mod s + 1"
    using int_mod_pos_eq [OF e b] .
  show "(q + 1) div s = q div s"
    using int_div_pos_eq [OF e b] .
qed

lemma succ_mod_wrap:
  fixes q s :: int
  assumes "0 < s" "q mod s = s - 1"
  shows "(q + 1) mod s = 0" and "(q + 1) div s = q div s + 1"
proof -
  have "q + 1 = s * (q div s) + (q mod s + 1)"
    by simp
  also have "\<dots> = s * (q div s + 1) + 0"
    using assms(2) by (simp add: algebra_simps)
  finally have e: "q + 1 = s * (q div s + 1) + 0" .
  show "(q + 1) mod s = 0"
    using int_mod_pos_eq [OF e] assms(1) by simp
  show "(q + 1) div s = q div s + 1"
    using int_div_pos_eq [OF e] assms(1) by simp
qed

lemma carry_mixed_radix:
  "\<forall>s\<in>set ss. 0 < s \<Longrightarrow> fst (carry (mixed_radix ss q) ss) = mixed_radix ss (q + 1)"
proof (induction ss arbitrary: q)
  case Nil
  then show ?case by simp
next
  case (Cons s ss)
  have s: "0 < s" using Cons.prems by simp
  have ih: "fst (carry (mixed_radix ss (q div s)) ss) = mixed_radix ss (q div s + 1)"
    using Cons.IH Cons.prems by simp
  show ?case
  proof (cases "q mod s = s - 1")
    case True
    then show ?thesis
      using ih succ_mod_wrap [OF s True] by (simp add: split_beta)
  next
    case False
    then show ?thesis
      using succ_mod_nowrap [OF s False] by simp
  qed
qed

lemma carry_count_nonneg: "0 \<le> snd (carry ds ss)"
  by (induction ds ss rule: carry.induct) (auto simp: split_beta)

lemma carry_count_pos: "ds \<noteq> [] \<Longrightarrow> ss \<noteq> [] \<Longrightarrow> 1 \<le> snd (carry ds ss)"
  using carry_count_nonneg by (cases ds; cases ss) (auto simp: split_beta)

lemma carry_all_max: "fst (carry (map (\<lambda>s. s - 1) ss) ss) = map (\<lambda>s. 0) ss"
  by (induction ss) (simp_all add: split_beta)

lemma carry_wsum:
  "length ds = length ss \<Longrightarrow>
   wsum (fst (carry ds ss)) (sizes_from z ss)
     + (if ds = map (\<lambda>s. s - 1) ss then top_size z ss - 1 else 0)
   = wsum ds (sizes_from z ss) + z - 1 + snd (carry ds ss)"
proof (induction ds ss arbitrary: z rule: carry.induct)
  case (1 d ds s ss)
  show ?case
  proof (cases "d = s - 1")
    case True
    have len: "length ds = length ss" using "1.prems" by simp
    define z' where "z' = z * s + 1"
    define ovf where "ovf = (if ds = map (\<lambda>s. s - 1) ss then top_size z' ss - 1 else 0)"
    have ih: "wsum (fst (carry ds ss)) (sizes_from z' ss) + ovf
                = wsum ds (sizes_from z' ss) + z' - 1 + snd (carry ds ss)"
      unfolding ovf_def z'_def using "1.IH" [OF _ len, of "z * s + 1"] True by simp
    have l: "wsum (fst (carry (d # ds) (s # ss))) (sizes_from z (s # ss))
               = wsum (fst (carry ds ss)) (sizes_from z' ss)"
      using True by (simp add: split_beta z'_def)
    have c: "snd (carry (d # ds) (s # ss)) = snd (carry ds ss) + 1"
      using True by (simp add: split_beta)
    have o: "(if d # ds = map (\<lambda>s. s - 1) (s # ss) then top_size z (s # ss) - 1 else 0) = ovf"
      using True by (simp add: ovf_def z'_def)
    have r: "wsum (d # ds) (sizes_from z (s # ss)) = (s - 1) * z + wsum ds (sizes_from z' ss)"
      using True by (simp add: z'_def)
    have "(s - 1) * z + z' = z * s + 1 + z * s - z"
      by (simp add: z'_def algebra_simps)
    show ?thesis
      unfolding l c o r using ih by (simp add: z'_def algebra_simps)
  next
    case False
    then show ?thesis by (simp add: algebra_simps)
  qed
qed auto

lemma prod_list_positive: "\<forall>s\<in>set ss. (0::int) < s \<Longrightarrow> 0 < prod_list ss"
  by (induction ss) auto

lemma mixed_radix_in_range:
  "\<forall>s\<in>set ss. 0 < s \<Longrightarrow> in_range (mixed_radix ss q) ss"
  unfolding in_range_def by (induction ss arbitrary: q) auto

lemma mixed_radix_zero: "mixed_radix ss 0 = map (\<lambda>s. 0) ss"
  by (induction ss) simp_all

lemma wsum_bounds:
  "in_range ds ss \<Longrightarrow> 0 \<le> z \<Longrightarrow>
   0 \<le> wsum ds (sizes_from z ss) \<and>
   wsum ds (sizes_from z ss) + z + int (length ss) \<le> top_size z ss"
  unfolding in_range_def
proof (induction ds ss arbitrary: z rule: list_all2_induct)
  case Nil
  then show ?case by simp
next
  case (Cons d ds s ss)
  have z': "0 \<le> z * s + 1" using Cons.hyps Cons.prems by simp
  from Cons.IH [OF z'] have
    ih1: "0 \<le> wsum ds (sizes_from (z * s + 1) ss)" and
    ih2: "wsum ds (sizes_from (z * s + 1) ss) + (z * s + 1) + int (length ss)
            \<le> top_size (z * s + 1) ss"
    by simp_all
  have dz: "0 \<le> d * z" "d * z + z \<le> z * s"
  proof -
    show "0 \<le> d * z" using Cons.hyps Cons.prems by simp
    have "(d + 1) * z \<le> s * z"
      using Cons.hyps Cons.prems by (intro mult_right_mono) auto
    then show "d * z + z \<le> z * s" by (simp add: algebra_simps)
  qed
  show ?case using ih1 ih2 dz by simp
qed

lemma mixed_radix_mod:
  "\<forall>s\<in>set ss. 0 < s \<Longrightarrow> mixed_radix ss (q mod prod_list ss) = mixed_radix ss q"
proof (induction ss arbitrary: q)
  case Nil
  then show ?case by simp
next
  case (Cons s ss)
  have s: "0 < s" and p: "0 < prod_list ss"
    using Cons.prems by (auto intro: prod_list_positive)
  have m: "q mod (s * prod_list ss) = s * (q div s mod prod_list ss) + q mod s"
    using p by (simp add: zmod_zmult2_eq)
  have r: "0 \<le> q mod s" "q mod s < s" using s by simp_all
  have a: "q mod (s * prod_list ss) mod s = q mod s"
    unfolding m using r by (simp add: mod_pos_pos_trivial)
  have b: "q mod (s * prod_list ss) div s = q div s mod prod_list ss"
    unfolding m using r s by (simp add: div_pos_pos_trivial)
  show ?case
    using Cons.IH [of "q div s"] Cons.prems by (simp add: a b)
qed

lemma mixed_radix_inj:
  "\<forall>s\<in>set ss. 0 < s \<Longrightarrow> mixed_radix ss q = mixed_radix ss q' \<Longrightarrow>
   q mod prod_list ss = q' mod prod_list ss"
proof (induction ss arbitrary: q q')
  case Nil
  then show ?case by simp
next
  case (Cons s ss)
  have p: "0 < prod_list ss"
    using Cons.prems by (auto intro: prod_list_positive)
  have "q div s mod prod_list ss = q' div s mod prod_list ss" "q mod s = q' mod s"
    using Cons.IH [of "q div s" "q' div s"] Cons.prems by simp_all
  then show ?case
    using p by (simp add: zmod_zmult2_eq)
qed

lemma mixed_radix_not_max:
  assumes "\<forall>s\<in>set ss. 0 < s" "0 \<le> q" "q + 1 < prod_list ss"
  shows "mixed_radix ss q \<noteq> map (\<lambda>s. s - 1) ss"
proof
  assume m: "mixed_radix ss q = map (\<lambda>s. s - 1) ss"
  have "mixed_radix ss (q + 1) = mixed_radix ss 0"
    using carry_mixed_radix [OF assms(1), of q] by (simp add: m carry_all_max mixed_radix_zero)
  then have "(q + 1) mod prod_list ss = 0 mod prod_list ss"
    by (rule mixed_radix_inj [OF assms(1)])
  then show False
    using assms(2,3) by (simp add: mod_pos_pos_trivial)
qed


subsection \<open>The loops of the chunk finder\<close>

lemma sizes_from_nth_Suc:
  "Suc k < length ss \<Longrightarrow> sizes_from z ss ! Suc k = sizes_from z ss ! k * ss ! k + 1"
proof (induction ss arbitrary: z k)
  case Nil
  then show ?case by simp
next
  case (Cons s ss)
  show ?case
  proof (cases k)
    case 0
    then show ?thesis using Cons.prems by (cases ss) simp_all
  next
    case (Suc j)
    then show ?thesis using Cons.IH [of j "z * s + 1"] Cons.prems by simp
  qed
qed

lemma sizes_from_nth_0: "ss \<noteq> [] \<Longrightarrow> sizes_from z ss ! 0 = z"
  by (cases ss) simp_all

lemma init_sizes_eq:
  "length sizes = length steps \<Longrightarrow> 0 < i \<Longrightarrow> i \<le> length steps \<Longrightarrow>
   take i sizes = take i (sizes_from 1 steps) \<Longrightarrow>
   init_sizes steps i sizes =
     (if loop_fits (sizes_from 1 steps ! (i - 1)) (drop (i - 1) steps)
      then Inr (sizes_from 1 steps) else Inl Overflow)"
proof (induction steps i sizes rule: init_sizes.induct)
  case (1 steps i sizes)
  obtain j where j: "i = Suc j"
    using "1.prems"(2) by (cases i) auto
  define z where "z = sizes_from 1 steps ! j"
  define s where "s = steps ! j"
  define v where "v = z * s + 1"
  have goal: "init_sizes steps i sizes =
     (if loop_fits z (drop j steps) then Inr (sizes_from 1 steps) else Inl Overflow)"
  proof (cases "i < length steps")
    case True
    have "sizes ! j = take i sizes ! j"
      by (simp add: j)
    also have "\<dots> = take i (sizes_from 1 steps) ! j"
      by (simp only: "1.prems"(4))
    also have "\<dots> = z"
      by (simp add: z_def j)
    finally have sz: "sizes ! j = z" .
    have v: "v = sizes_from 1 steps ! i"
      using sizes_from_nth_Suc [of j steps 1] True by (simp add: v_def z_def s_def j)
    have d1: "drop j steps = s # drop i steps"
      using True Cons_nth_drop_Suc [of j steps] by (simp add: s_def j)
    have d2: "drop i steps = steps ! i # drop (Suc i) steps"
      using True by (simp add: Cons_nth_drop_Suc)
    have lf: "loop_fits z (drop j steps)
                \<longleftrightarrow> int_ok (z * s) \<and> int_ok v \<and> loop_fits v (drop i steps)"
      unfolding d1 d2 v_def by simp
    show ?thesis
    proof (cases "int_ok (z * s) \<and> int_ok v")
      case ok: True
      have m1: "int_mul (sizes ! (i - 1)) (steps ! (i - 1)) = Inr (z * s)"
        using ok by (simp add: j sz s_def [symmetric] int_mul_eq)
      have m2: "int_add (z * s) 1 = Inr v"
        using ok by (simp add: int_add_eq v_def)
      have "take (Suc i) (sizes[i := v]) = take i sizes @ [v]"
        using True "1.prems" by (simp add: take_Suc_conv_app_nth)
      also have "\<dots> = take (Suc i) (sizes_from 1 steps)"
        using True "1.prems" v by (simp add: take_Suc_conv_app_nth)
      finally have t: "take (Suc i) (sizes[i := v]) = take (Suc i) (sizes_from 1 steps)" .
      have "init_sizes steps (Suc i) (sizes[i := v]) =
              (if loop_fits v (drop i steps) then Inr (sizes_from 1 steps) else Inl Overflow)"
        using "1.IH" [OF True m1 m2] t True "1.prems" by (simp add: v)
      moreover have "init_sizes steps i sizes = init_sizes steps (Suc i) (sizes[i := v])"
        by (subst init_sizes.simps) (simp only: True if_True m1 m2 sum.case)
      ultimately show ?thesis
        using ok by (simp add: lf)
    next
      case False
      then have "init_sizes steps i sizes = Inl Overflow"
        using True
        by (subst init_sizes.simps)
           (auto simp: j sz s_def [symmetric] int_mul_def int_add_def v_def)
      then show ?thesis
        using False by (auto simp: lf)
    qed
  next
    case False
    then have i: "i = length steps" using "1.prems" by simp
    then have "sizes = sizes_from 1 steps"
      using "1.prems" by simp
    moreover have "loop_fits z (drop j steps)"
    proof -
      have "drop j steps = [steps ! j]"
        using i Cons_nth_drop_Suc [of j steps] by (simp add: j)
      then show ?thesis by simp
    qed
    ultimately show ?thesis
      using False by (subst init_sizes.simps) simp
  qed
  then show ?case
    by (simp add: j z_def)
qed

lemma goToChunk_digits_eq:
  "length li = length steps \<Longrightarrow> i \<le> length steps \<Longrightarrow>
   \<forall>s\<in>set (drop i steps). 0 < s \<Longrightarrow> 0 \<le> q \<Longrightarrow>
   goToChunk_digits steps i q li = Inr (take i li @ mixed_radix (drop i steps) q)"
proof (induction steps i q li rule: goToChunk_digits.induct)
  case (1 steps i q li)
  show ?case
  proof (cases "i < length steps")
    case True
    define s where "s = steps ! i"
    have d: "drop i steps = s # drop (Suc i) steps"
      using True by (simp add: s_def Cons_nth_drop_Suc)
    have s: "0 < s" using "1.prems"(3) d by simp
    have cd: "int_div q (steps ! i) = Inr (q div s)" and cm: "int_mod q (steps ! i) = Inr (q mod s)"
      using s "1.prems"(4) by (simp_all add: int_div_pos int_mod_pos s_def [symmetric])
    have q': "0 \<le> q div s" using s "1.prems"(4) by (simp add: pos_imp_zdiv_nonneg_iff)
    have "goToChunk_digits steps (Suc i) (q div s) (li[i := q mod s])
            = Inr (take (Suc i) (li[i := q mod s]) @ mixed_radix (drop (Suc i) steps) (q div s))"
      using "1.IH" [OF True cm cd] True "1.prems" s q' d by simp
    also have "take (Suc i) (li[i := q mod s]) = take i li @ [q mod s]"
      using True "1.prems" by (simp add: take_Suc_conv_app_nth)
    finally show ?thesis
      using True s by (subst goToChunk_digits.simps) (simp add: cd cm d)
  next
    case False
    then show ?thesis
      using "1.prems" by (subst goToChunk_digits.simps) simp
  qed
qed

lemma wsum_drop_sum:
  "length li = n \<Longrightarrow> length sizes = n \<Longrightarrow> i \<le> n \<Longrightarrow>
   wsum (drop i li) (drop i sizes) = (\<Sum>k = i..<n. li ! k * sizes ! k)"
proof (induction "n - i" arbitrary: i)
  case 0
  then show ?case by simp
next
  case (Suc m)
  then have lt: "i < n" by simp
  have d: "drop i li = li ! i # drop (Suc i) li" "drop i sizes = sizes ! i # drop (Suc i) sizes"
    using lt Suc.prems by (simp_all add: Cons_nth_drop_Suc)
  have "wsum (drop (Suc i) li) (drop (Suc i) sizes) = (\<Sum>k = Suc i..<n. li ! k * sizes ! k)"
    using Suc.hyps Suc.prems lt by (intro Suc.hyps(1)) simp_all
  then show ?case
    using lt by (simp add: d sum.atLeast_Suc_lessThan)
qed

lemma wsum_drop_nonneg:
  assumes "length li = n" "length sizes = n" "i \<le> n"
    and "\<forall>k. i \<le> k \<and> k < n \<longrightarrow> 0 \<le> li ! k * sizes ! k"
  shows "0 \<le> wsum (drop i li) (drop i sizes)"
  unfolding wsum_drop_sum [OF assms(1,2,3)] using assms(4) by (intro sum_nonneg) simp

lemma goToChunk_sum_eq:
  "length li = n \<Longrightarrow> length sizes = n \<Longrightarrow> i \<le> n \<Longrightarrow> 0 \<le> acc \<Longrightarrow>
   \<forall>k. i \<le> k \<and> k < n \<longrightarrow> 0 \<le> li ! k * sizes ! k \<Longrightarrow>
   acc + wsum (drop i li) (drop i sizes) \<le> 2147483647 \<Longrightarrow>
   goToChunk_sum n li sizes i acc = Inr (acc + wsum (drop i li) (drop i sizes))"
proof (induction n li sizes i acc rule: goToChunk_sum.induct)
  case (1 n li sizes i acc)
  show ?case
  proof (cases "i < n")
    case True
    define p where "p = li ! i * sizes ! i"
    have d: "drop i li = li ! i # drop (Suc i) li" "drop i sizes = sizes ! i # drop (Suc i) sizes"
      using True "1.prems" by (simp_all add: Cons_nth_drop_Suc)
    have p0: "0 \<le> p" using "1.prems"(5) True by (simp add: p_def)
    have r0: "0 \<le> wsum (drop (Suc i) li) (drop (Suc i) sizes)"
      using "1.prems" True by (intro wsum_drop_nonneg [of li n]) simp_all
    have b: "acc + p + wsum (drop (Suc i) li) (drop (Suc i) sizes) \<le> 2147483647"
      using "1.prems"(6) by (simp add: d p_def)
    have m: "int_mul (li ! i) (sizes ! i) = Inr p" "int_add acc p = Inr (acc + p)"
      using p0 r0 b "1.prems"(4) by (simp_all add: p_def [symmetric] int_mul_eq int_add_eq int_okI)
    have "goToChunk_sum n li sizes (Suc i) (acc + p)
            = Inr (acc + p + wsum (drop (Suc i) li) (drop (Suc i) sizes))"
      using "1.IH" [OF True m] True "1.prems" p0 b by simp
    then show ?thesis
      using True by (subst goToChunk_sum.simps) (simp add: m d p_def [symmetric])
  next
    case False
    then show ?thesis
      using "1.prems" by (subst goToChunk_sum.simps) simp
  qed
qed

lemma in_range_Cons:
  "in_range (d # ds) (s # ss) \<longleftrightarrow> 0 \<le> d \<and> d < s \<and> in_range ds ss"
  by (simp add: in_range_def)

lemma advanceChunk_carry_eq:
  "length li = length steps \<Longrightarrow> i \<le> length steps \<Longrightarrow>
   in_range (drop i li) (drop i steps) \<Longrightarrow> \<forall>s\<in>set (drop i steps). s \<le> 2147483647 \<Longrightarrow>
   int_ok c \<Longrightarrow> c + snd (carry (drop i li) (drop i steps)) \<le> 2147483647 \<Longrightarrow>
   advanceChunk_carry steps i li c =
     Inr (take i li @ fst (carry (drop i li) (drop i steps)),
          c + snd (carry (drop i li) (drop i steps)))"
proof (induction steps i li c rule: advanceChunk_carry.induct)
  case (1 steps i li c)
  show ?case
  proof (cases "i < length steps")
    case True
    have d: "drop i li = li ! i # drop (Suc i) li" "drop i steps = steps ! i # drop (Suc i) steps"
      using True "1.prems" by (simp_all add: Cons_nth_drop_Suc)
    have r: "0 \<le> li ! i" "li ! i < steps ! i" "in_range (drop (Suc i) li) (drop (Suc i) steps)"
      using "1.prems"(3) by (simp_all add: d in_range_Cons)
    have s: "steps ! i \<le> 2147483647" "\<forall>s\<in>set (drop (Suc i) steps). s \<le> 2147483647"
      using "1.prems"(4) by (simp_all add: d)
    have m: "int_sub (steps ! i) 1 = Inr (steps ! i - 1)"
      using r s by (simp add: int_sub_eq int_okI)
    show ?thesis
    proof (cases "li ! i \<noteq> steps ! i - 1")
      case ne: True
      have c1: "int_add c 1 = Inr (c + 1)"
        using "1.prems"(5,6) ne by (simp add: d int_add_eq int_ok_def)
      have d1: "int_add (li ! i) 1 = Inr (li ! i + 1)"
        using r s by (simp add: int_add_eq int_okI)
      have "li[i := li ! i + 1] = take i li @ (li ! i + 1) # drop (Suc i) li"
        using True "1.prems" by (simp add: upd_conv_take_nth_drop)
      then show ?thesis
        using True ne by (subst advanceChunk_carry.simps) (simp add: d c1 m d1)
    next
      case False
      define n where "n = snd (carry (drop (Suc i) li) (drop (Suc i) steps))"
      have n0: "0 \<le> n"
        unfolding n_def by (rule carry_count_nonneg)
      have b: "c + 1 + n \<le> 2147483647"
        using "1.prems"(6) False by (simp add: d split_beta n_def)
      have c1: "int_add c 1 = Inr (c + 1)"
        using "1.prems"(5) b n0 by (simp add: int_add_eq int_ok_def)
      have ok1: "int_ok (c + 1)"
        using "1.prems"(5) b n0 by (simp add: int_ok_def)
      have t: "take (Suc i) (li[i := 0]) = take i li @ [0]"
        using True "1.prems" by (simp add: take_Suc_conv_app_nth)
      have "advanceChunk_carry steps (Suc i) (li[i := 0]) (c + 1) =
              Inr (take (Suc i) (li[i := 0]) @ fst (carry (drop (Suc i) li) (drop (Suc i) steps)),
                   c + 1 + snd (carry (drop (Suc i) li) (drop (Suc i) steps)))"
        using "1.IH" [OF True c1 m] False True "1.prems"(1) r(3) s(2) ok1 b
        by (simp add: n_def)
      then show ?thesis
        using True False by (subst advanceChunk_carry.simps) (simp add: d t split_beta c1 m)
    qed
  next
    case False
    then show ?thesis
      using "1.prems" by (subst advanceChunk_carry.simps) simp
  qed
qed

lemma sizes_from_drop:
  "L < length ss \<Longrightarrow>
   drop L (sizes_from z ss) = sizes_from (sizes_from z ss ! L) (drop L ss) \<and>
   top_size z ss = top_size (sizes_from z ss ! L) (drop L ss)"
proof (induction ss arbitrary: z L)
  case Nil
  then show ?case by simp
next
  case (Cons s ss)
  show ?case
  proof (cases L)
    case 0
    then show ?thesis by simp
  next
    case (Suc j)
    then show ?thesis using Cons.IH [of j "z * s + 1"] Cons.prems by simp
  qed
qed

lemma top_size_last:
  "ss \<noteq> [] \<Longrightarrow>
   top_size z ss = sizes_from z ss ! (length ss - 1) * ss ! (length ss - 1) + 1"
proof (induction ss arbitrary: z)
  case Nil
  then show ?case by simp
next
  case (Cons s ss)
  show ?case
  proof (cases ss)
    case Nil
    then show ?thesis by simp
  next
    case (Cons t ts)
    then show ?thesis using Cons.IH [of "z * s + 1"] by simp
  qed
qed

lemma sizes_from_pos:
  "1 \<le> z \<Longrightarrow> \<forall>s\<in>set ss. 1 \<le> s \<Longrightarrow> \<forall>x\<in>set (sizes_from z ss). 1 \<le> x"
proof (induction ss arbitrary: z)
  case Nil
  then show ?case by simp
next
  case (Cons s ss)
  have "0 \<le> z * s" using Cons.prems by simp
  then have "1 \<le> z * s + 1" by simp
  from Cons.IH [OF this] Cons.prems show ?case by simp
qed

subsection \<open>The chunk finder on a valid configuration\<close>

lemma top_size_ge_len:
  "1 \<le> z \<Longrightarrow> \<forall>s\<in>set ss. 1 \<le> s \<Longrightarrow> z + int (length ss) \<le> top_size z ss"
proof (induction ss arbitrary: z)
  case Nil
  then show ?case by simp
next
  case (Cons s ss)
  have "z * 1 \<le> z * s"
    using Cons.prems by (intro mult_left_mono) simp_all
  then have z': "z + 1 \<le> z * s + 1" "1 \<le> z * s + 1"
    using Cons.prems by simp_all
  have "z * s + 1 + int (length ss) \<le> top_size (z * s + 1) ss"
    using Cons.IH [OF z'(2)] Cons.prems by simp
  moreover have "top_size z (s # ss) = top_size (z * s + 1) ss"
    "int (length (s # ss)) = 1 + int (length ss)"
    by simp_all
  ultimately show ?case
    using z'(1) by linarith
qed

lemma steps_less_top:
  "1 \<le> z \<Longrightarrow> \<forall>s\<in>set ss. 1 \<le> s \<Longrightarrow> \<forall>s\<in>set ss. s < top_size z ss"
proof (induction ss arbitrary: z)
  case Nil
  then show ?case by simp
next
  case (Cons s ss)
  have "1 * s \<le> z * s"
    using Cons.prems by (intro mult_right_mono) simp_all
  then have z': "s < z * s + 1" "1 \<le> z * s + 1"
    using Cons.prems by simp_all
  have "z * s + 1 + int (length ss) \<le> top_size (z * s + 1) ss"
    using top_size_ge_len [OF z'(2)] Cons.prems by simp
  then have "s < top_size (z * s + 1) ss"
    using z'(1) by simp
  then show ?case
    using Cons.IH [OF z'(2)] Cons.prems by simp
qed

lemma init_eq:
  assumes "0 < LEVELS f" "length (levelSizes f) = LEVELS f"
  shows "init f =
           (if sizes_fit (levelSteps f)
            then Inr (f\<lparr>levelSizes := sizes_from 1 (levelSteps f),
                         totalChunkCount := sizes_from 1 (levelSteps f) ! (LEVELS f - 1)
                                              * levelSteps f ! (LEVELS f - 1)\<rparr>)
            else Inl Overflow)"
proof -
  define steps where "steps = levelSteps f"
  have n: "steps \<noteq> []" "length (levelSizes f) = length steps" "LEVELS f = length steps"
    using assms by (auto simp: LEVELS_def steps_def)
  have "take 1 ((levelSizes f)[0 := 1]) = take 1 (sizes_from 1 steps)"
    using n by (cases steps; cases "levelSizes f") simp_all
  then have "init_sizes steps 1 ((levelSizes f)[0 := 1]) =
               (if loop_fits (sizes_from 1 steps ! (1 - 1)) (drop (1 - 1) steps)
                then Inr (sizes_from 1 steps) else Inl Overflow)"
    using n by (intro init_sizes_eq) (auto simp: Suc_le_eq)
  then have s: "init_sizes steps 1 ((levelSizes f)[0 := 1]) =
               (if loop_fits 1 steps then Inr (sizes_from 1 steps) else Inl Overflow)"
    using n(1) by (simp add: sizes_from_nth_0)
  show ?thesis
    unfolding init_def steps_def [symmetric] n(3) s
    using n(1) by (simp add: sizes_fit_def int_mul_def)
qed

lemma init_ready:
  assumes "valid_config f0" "init f0 = Inr f"
  shows "ready f" "levelSteps f = levelSteps f0" "levelIndex f = levelIndex f0"
    "currLevel f = currLevel f0" "currIndex f = currIndex f0" "sizes_fit (levelSteps f0)"
proof -
  define steps where "steps = levelSteps f0"
  have n: "steps \<noteq> []" "0 < LEVELS f0" "length (levelSizes f0) = LEVELS f0"
    "LEVELS f0 = length steps"
    using assms(1) by (auto simp: valid_config_def LEVELS_def steps_def)
  note e = init_eq [OF n(2,3), folded steps_def, unfolded n(4)]
  show fit: "sizes_fit (levelSteps f0)"
    using assms(2) e by (auto simp: steps_def split: if_splits)
  have f: "f = f0\<lparr>levelSizes := sizes_from 1 steps,
                  totalChunkCount := sizes_from 1 steps ! (length steps - 1) * steps ! (length steps - 1)\<rparr>"
    using assms(2) e fit by (simp add: steps_def)
  have "int_ok (sizes_from 1 steps ! (length steps - 1) * steps ! (length steps - 1))"
    using fit by (simp add: sizes_fit_def steps_def)
  then show "ready f"
    using n(1) assms(1) top_size_last [OF n(1), of 1]
    by (simp add: f ready_def valid_config_def LEVELS_def steps_def [symmetric] int_ok_def)
  show "levelSteps f = levelSteps f0" "levelIndex f = levelIndex f0"
    "currLevel f = currLevel f0" "currIndex f = currIndex f0"
    by (simp_all add: f)
qed

lemma ready_sizes:
  assumes "ready f" "L < LEVELS f"
  shows "drop L (levelSizes f) = sizes_from (levelSizes f ! L) (drop L (levelSteps f))"
    and "totalChunkCount f = top_size (levelSizes f ! L) (drop L (levelSteps f)) - 1"
    and "1 \<le> levelSizes f ! L"
    and "0 < L \<Longrightarrow> levelSteps f ! (L - 1) * levelSizes f ! (L - 1) = levelSizes f ! L - 1"
    and "L = 0 \<Longrightarrow> levelSizes f ! L = 1"
proof -
  have z: "levelSizes f = sizes_from 1 (levelSteps f)" and lt: "L < length (levelSteps f)"
    and pos: "\<forall>s\<in>set (levelSteps f). 1 \<le> s"
    and t: "totalChunkCount f = top_size 1 (levelSteps f) - 1"
    using assms by (auto simp: ready_def LEVELS_def)
  show "drop L (levelSizes f) = sizes_from (levelSizes f ! L) (drop L (levelSteps f))"
    using sizes_from_drop [OF lt, of 1] by (simp add: z)
  show "totalChunkCount f = top_size (levelSizes f ! L) (drop L (levelSteps f)) - 1"
    using sizes_from_drop [OF lt, of 1] by (simp add: z t)
  show "1 \<le> levelSizes f ! L"
    using sizes_from_pos [of 1 "levelSteps f"] pos lt by (simp add: z)
  show "levelSteps f ! (L - 1) * levelSizes f ! (L - 1) = levelSizes f ! L - 1" if "0 < L"
  proof -
    obtain j where j: "L = Suc j" using \<open>0 < L\<close> by (cases L) auto
    show ?thesis
      using sizes_from_nth_Suc [of j "levelSteps f" 1] lt by (simp add: z j)
  qed
  show "levelSizes f ! L = 1" if "L = 0"
    using that lt sizes_from_nth_0 [of "levelSteps f" 1] by (auto simp: z)
qed

lemma ready_ranges:
  assumes "ready f" "L < LEVELS f"
  shows "levelSizes f ! L \<le> totalChunkCount f" and "levelSteps f ! L \<le> totalChunkCount f"
    and "1 \<le> levelSteps f ! L" and "totalChunkCount f \<le> 2147483647"
    and "\<forall>s\<in>set (levelSteps f). s \<le> 2147483647"
proof -
  have pos: "\<forall>s\<in>set (levelSteps f). 1 \<le> s" and lt: "L < length (levelSteps f)"
    and t: "totalChunkCount f = top_size 1 (levelSteps f) - 1"
    and m: "totalChunkCount f \<le> 2147483647"
    using assms by (auto simp: ready_def LEVELS_def)
  show "totalChunkCount f \<le> 2147483647" by fact
  have dpos: "\<forall>s\<in>set (drop L (levelSteps f)). 1 \<le> s"
    using pos by (auto dest!: in_set_dropD)
  have "levelSizes f ! L + int (length (drop L (levelSteps f)))
          \<le> top_size (levelSizes f ! L) (drop L (levelSteps f))"
    using ready_sizes(3) [OF assms] dpos by (rule top_size_ge_len)
  then show "levelSizes f ! L \<le> totalChunkCount f"
    using lt by (simp add: ready_sizes(2) [OF assms])
  have all: "\<forall>s\<in>set (levelSteps f). s \<le> totalChunkCount f"
    using steps_less_top [of 1 "levelSteps f"] pos by (auto simp: t)
  then show "levelSteps f ! L \<le> totalChunkCount f"
    using lt by simp
  show "1 \<le> levelSteps f ! L"
    using pos lt by simp
  show "\<forall>s\<in>set (levelSteps f). s \<le> 2147483647"
    using all m by auto
qed

lemma located_fields:
  "levelSteps (located f L q) = levelSteps f"
  "levelSizes (located f L q) = levelSizes f"
  "totalChunkCount (located f L q) = totalChunkCount f"
  "currLevel (located f L q) = int L"
  "LEVELS (located f L q) = LEVELS f"
  by (simp_all add: located_def LEVELS_def)

lemma located_bounds:
  assumes "ready f" "L < LEVELS f"
  shows "0 \<le> currIndex (located f L q)" "currIndex (located f L q) < totalChunkCount f"
    and "0 \<le> wsum (mixed_radix (drop L (levelSteps f)) q) (drop L (levelSizes f))"
proof -
  define ss where "ss = drop L (levelSteps f)"
  define z where "z = levelSizes f ! L"
  have pos: "\<forall>s\<in>set ss. 0 < s" and ne: "0 < length ss"
    using assms by (auto simp: ready_def LEVELS_def ss_def dest!: in_set_dropD)
  note rs = ready_sizes [OF assms, folded ss_def z_def]
  have "in_range (mixed_radix ss q) ss"
    using pos by (rule mixed_radix_in_range)
  from wsum_bounds [OF this, of z] rs(3)
  have b: "0 \<le> wsum (mixed_radix ss q) (sizes_from z ss)"
    "wsum (mixed_radix ss q) (sizes_from z ss) + z + int (length ss) \<le> top_size z ss"
    by simp_all
  have c: "currIndex (located f L q) = wsum (mixed_radix ss q) (sizes_from z ss) + z - 1"
    by (simp add: located_def ss_def [symmetric] z_def [symmetric] rs(1))
  show "0 \<le> currIndex (located f L q)"
    using b(1) rs(3) by (simp add: c)
  have "1 \<le> int (length ss)"
    using ne by (cases ss) simp_all
  then show "currIndex (located f L q) < totalChunkCount f"
    using b(2) by (simp add: c rs(2))
  show "0 \<le> wsum (mixed_radix ss q) (drop L (levelSizes f))"
    using b(1) by (simp add: rs(1))
qed

lemma goToChunk_located:
  assumes "ready f" "L < LEVELS f" "0 \<le> q"
  shows "goToChunk f (int L) q = Inr (located f L q)"
proof -
  define D where "D = mixed_radix (drop L (levelSteps f)) q"
  define li where "li = take L (levelIndex f) @ D"
  define w where "w = wsum D (drop L (levelSizes f))"
  have len: "length (levelIndex f) = length (levelSteps f)"
    "length (levelSizes f) = length (levelSteps f)"
    and lt: "L \<le> length (levelSteps f)"
    and pos: "\<forall>s\<in>set (drop L (levelSteps f)). 0 < s"
    and z: "levelSizes f = sizes_from 1 (levelSteps f)"
    and pos1: "\<forall>s\<in>set (levelSteps f). 1 \<le> s"
    using assms(1,2) by (auto simp: ready_def LEVELS_def dest!: in_set_dropD)
  note rr = ready_ranges [OF assms(1,2)]
  note lb = located_bounds [OF assms(1,2), of q, folded D_def w_def]
  have ci: "currIndex (located f L q) = w + levelSizes f ! L - 1"
    by (simp add: located_def w_def D_def)
  have d: "goToChunk_digits (levelSteps f) L q (levelIndex f) = Inr li"
    unfolding li_def D_def using goToChunk_digits_eq [OF len(1) lt pos assms(3)] .
  have lli: "length li = LEVELS f"
    using lt len by (simp add: li_def D_def LEVELS_def)
  have dl: "drop L li = D"
    using lt len by (simp add: li_def)
  have nn: "0 \<le> li ! k * levelSizes f ! k" if "L \<le> k \<and> k < LEVELS f" for k
  proof -
    have lik: "li ! k = D ! (k - L)"
      using that lt len by (simp add: li_def nth_append)
    have "in_range D (drop L (levelSteps f))"
      unfolding D_def using pos by (rule mixed_radix_in_range)
    then have "\<forall>i<length D. 0 \<le> D ! i"
      by (simp add: in_range_def list_all2_conv_all_nth)
    moreover have "k - L < length D"
      using that by (simp add: D_def LEVELS_def) linarith
    ultimately have "0 \<le> D ! (k - L)"
      by blast
    moreover have "1 \<le> levelSizes f ! k"
      using sizes_from_pos [of 1 "levelSteps f"] pos1 that by (simp add: z LEVELS_def)
    ultimately show ?thesis by (simp add: lik)
  qed
  have wb: "0 + wsum (drop L li) (drop L (levelSizes f)) \<le> 2147483647"
    using lb(2) rr(4) ready_sizes(3) [OF assms(1,2)] by (simp add: dl w_def [symmetric] ci)
  have s: "goToChunk_sum (LEVELS f) li (levelSizes f) L 0 = Inr w"
    using goToChunk_sum_eq [OF lli _ _ _ _ wb] len lt nn
    by (simp add: LEVELS_def dl w_def)
  have g: "\<not> (int L < 0 \<or> int (LEVELS f) < int L)" "nat (int L) = L"
    using assms(2) by simp_all
  show ?thesis
  proof (cases "0 < L")
    case True
    have n: "nat (int L - 1) = L - 1"
      by simp
    define p where "p = levelSizes f ! L - 1"
    have p: "levelSteps f ! (L - 1) * levelSizes f ! (L - 1) = p"
      using ready_sizes(4) [OF assms(1,2) True] by (simp add: p_def)
    have pb: "0 \<le> p" "p \<le> 2147483647"
      using ready_sizes(3) [OF assms(1,2)] rr(1,4) by (simp_all add: p_def)
    have m: "int_mul (levelSteps f ! (L - 1)) (levelSizes f ! (L - 1)) = Inr p"
      using pb int_mul_eq [of "levelSteps f ! (L - 1)" "levelSizes f ! (L - 1)"]
      unfolding p by (simp add: int_okI)
    have "w + p = currIndex (located f L q)"
      by (simp add: ci p_def)
    then have a: "int_add w p = Inr (currIndex (located f L q))"
      using lb(1,2) rr(4) by (simp add: int_add_eq int_okI)
    have "goToChunk f (int L) q =
            Inr (f\<lparr>levelIndex := li, currLevel := int L, currIndex := currIndex (located f L q)\<rparr>)"
      unfolding goToChunk_def using True
      by (simp only: g if_False if_True d s sum.case n m a of_nat_0_less_iff)
    then show ?thesis
      by (simp add: located_def li_def D_def)
  next
    case False
    then have L0: "L = 0" by simp
    have "w = currIndex (located f L q)"
      using ready_sizes(5) [OF assms(1,2) L0] by (simp add: ci)
    moreover have "goToChunk f (int L) q =
            Inr (f\<lparr>levelIndex := li, currLevel := int L, currIndex := w\<rparr>)"
      unfolding goToChunk_def using False
      by (simp only: g if_False d s sum.case of_nat_0_less_iff)
    ultimately show ?thesis
      by (simp add: located_def li_def D_def)
  qed
qed

lemma advanceChunk_abs:
  assumes "currLevel f = int L" "L < LEVELS f" "length (levelIndex f) = LEVELS f"
    and "in_range (drop L (levelIndex f)) (drop L (levelSteps f))"
    and "\<forall>s\<in>set (levelSteps f). s \<le> 2147483647"
    and "0 \<le> currIndex f" "0 \<le> levelSizes f ! L" "0 \<le> totalChunkCount f"
  defines "r \<equiv> carry (drop L (levelIndex f)) (drop L (levelSteps f))"
  defines "c \<equiv> currIndex f + levelSizes f ! L + snd r - 1"
  assumes "c \<le> 2147483647"
  shows "advanceChunk f =
           Inr (f\<lparr>levelIndex := take L (levelIndex f) @ fst r,
                   currIndex := (if c \<ge> totalChunkCount f then c - totalChunkCount f else c)\<rparr>)"
proof -
  define c0 where "c0 = currIndex f + levelSizes f ! L"
  define m where "m = levelSteps f ! L - 1"
  have lt: "L < length (levelSteps f)" "L < length (levelIndex f)"
    and len: "length (levelIndex f) = length (levelSteps f)"
    using assms(2,3) by (simp_all add: LEVELS_def)
  have d: "drop L (levelIndex f) = levelIndex f ! L # drop (Suc L) (levelIndex f)"
    "drop L (levelSteps f) = levelSteps f ! L # drop (Suc L) (levelSteps f)"
    using lt by (simp_all add: Cons_nth_drop_Suc)
  have ir: "0 \<le> levelIndex f ! L" "levelIndex f ! L < levelSteps f ! L"
    "in_range (drop (Suc L) (levelIndex f)) (drop (Suc L) (levelSteps f))"
    using assms(4) by (simp_all add: d in_range_Cons)
  have sL: "levelSteps f ! L \<le> 2147483647" "\<forall>s\<in>set (drop (Suc L) (levelSteps f)). s \<le> 2147483647"
    using assms(5) lt by (auto dest!: in_set_dropD)
  have r1: "1 \<le> snd r"
    unfolding r_def using carry_count_nonneg [of "drop (Suc L) (levelIndex f)" "drop (Suc L) (levelSteps f)"]
    by (simp add: d split_beta)
  have c0: "0 \<le> c0" "c0 \<le> c" "c0 \<le> 2147483647"
    using assms(6,7,11) r1 by (simp_all add: c0_def c_def)
  have g: "\<not> (currLevel f < 0 \<or> int (LEVELS f) \<le> currLevel f)" "nat (currLevel f) = L"
    using assms(1,2) by simp_all
  have a0: "int_add (currIndex f) (levelSizes f ! L) = Inr c0"
    using c0 by (simp add: int_add_eq int_okI c0_def)
  have s0: "int_sub (levelSteps f ! L) 1 = Inr m"
    using ir sL by (simp add: int_sub_eq int_okI m_def)
  have w: "(if c \<ge> totalChunkCount f then int_sub c (totalChunkCount f) else Inr c)
             = Inr (if c \<ge> totalChunkCount f then c - totalChunkCount f else c)"
    using assms(8,11) by (simp add: int_sub_eq int_okI)
  show ?thesis
  proof (cases "levelIndex f ! L = m")
    case True
    define r' where "r' = carry (drop (Suc L) (levelIndex f)) (drop (Suc L) (levelSteps f))"
    have r: "r = (0 # fst r', snd r' + 1)"
      using True by (simp add: r_def d r'_def split_beta m_def)
    have cc: "c0 + snd r' = c"
      by (simp add: c_def c0_def r)
    have k: "advanceChunk_carry (levelSteps f) (Suc L) (levelIndex f) c0
               = Inr (take (Suc L) (levelIndex f) @ fst r', c)"
      using advanceChunk_carry_eq [OF len, of "Suc L" c0] lt ir(3) sL(2) c0 assms(11)
      by (simp add: r'_def [symmetric] cc int_okI)
    have u: "(take (Suc L) (levelIndex f) @ fst r')[L := 0] = take L (levelIndex f) @ 0 # fst r'"
      using lt by (simp add: take_Suc_conv_app_nth list_update_append)
    show ?thesis
      using True by (simp add: advanceChunk_def Let_def g a0 s0 k u r w)
  next
    case False
    have r: "r = ((levelIndex f ! L + 1) # drop (Suc L) (levelIndex f), 1)"
      using False by (simp add: r_def d m_def)
    have cc: "c0 = c"
      by (simp add: c_def c0_def r)
    have a1: "int_add (levelIndex f ! L) 1 = Inr (levelIndex f ! L + 1)"
      using ir sL by (simp add: int_add_eq int_okI)
    have u: "(levelIndex f)[L := levelIndex f ! L + 1]
               = take L (levelIndex f) @ (levelIndex f ! L + 1) # drop (Suc L) (levelIndex f)"
      using lt by (simp add: upd_conv_take_nth_drop)
    show ?thesis
      using False by (simp add: advanceChunk_def Let_def g a0 s0 a1 u r w cc)
  qed
qed

lemma wsum_zero: "wsum (map (\<lambda>s. 0) ss) zs = 0"
  by (induction ss arbitrary: zs) (simp, case_tac zs, simp_all)

lemma advance_located_raw:
  assumes "ready f" "L < LEVELS f" "0 \<le> q"
  defines "ss \<equiv> drop L (levelSteps f)"
  defines "ovf \<equiv> (if mixed_radix ss q = map (\<lambda>s. s - 1) ss then totalChunkCount f else 0)"
  shows "totalChunkCount f + levelSizes f ! L \<le> 2147483648 \<Longrightarrow>
           advanceChunk (located f L q) = Inr (located f L (q + 1))"
    and "currIndex (located f L (q + 1)) + ovf
           = currIndex (located f L q) + levelSizes f ! L + snd (carry (mixed_radix ss q) ss) - 1"
proof -
  define z where "z = levelSizes f ! L"
  define D where "D = mixed_radix ss q"
  define g where "g = located f L q"
  have len: "length (levelIndex f) = length (levelSteps f)" and lt: "L < length (levelSteps f)"
    using assms(1,2) by (simp_all add: ready_def LEVELS_def)
  have pos: "\<forall>s\<in>set ss. 0 < s"
    using assms(1) by (auto simp: ready_def ss_def dest!: in_set_dropD)
  note rs = ready_sizes [OF assms(1,2), folded ss_def z_def]
  note rr = ready_ranges [OF assms(1,2)]
  have gl: "levelIndex g = take L (levelIndex f) @ D"
    by (simp add: g_def located_def D_def ss_def)
  have dg: "drop L (levelIndex g) = D" "take L (levelIndex g) = take L (levelIndex f)"
    using lt len by (simp_all add: gl)
  have "length (levelIndex g) = length (levelSteps f)"
    using lt len by (simp add: gl D_def ss_def)
  then have lg: "length (levelIndex g) = LEVELS g"
    by (simp add: g_def located_fields) (simp add: LEVELS_def)
  have cg: "currIndex g = wsum D (sizes_from z ss) + z - 1"
    by (simp add: g_def located_def D_def ss_def [symmetric] z_def [symmetric] rs(1))
  have D1: "fst (carry D ss) = mixed_radix ss (q + 1)"
    unfolding D_def using pos by (rule carry_mixed_radix)
  have lD: "length D = length ss"
    by (simp add: D_def)
  have w: "wsum (mixed_radix ss (q + 1)) (sizes_from z ss) + ovf
             = wsum D (sizes_from z ss) + z - 1 + snd (carry D ss)"
    using carry_wsum [OF lD, of z] unfolding D1 ovf_def D_def [symmetric] rs(2) by simp
  have c1: "currIndex (located f L (q + 1)) = wsum (mixed_radix ss (q + 1)) (sizes_from z ss) + z - 1"
    by (simp add: located_def ss_def [symmetric] z_def [symmetric] rs(1))
  show e: "currIndex (located f L (q + 1)) + ovf
           = currIndex (located f L q) + levelSizes f ! L + snd (carry (mixed_radix ss q) ss) - 1"
    using w by (simp add: c1 cg [unfolded g_def] z_def D_def)
  show "advanceChunk (located f L q) = Inr (located f L (q + 1))"
    if H: "totalChunkCount f + levelSizes f ! L \<le> 2147483648"
  proof -
    define c where "c = currIndex g + levelSizes g ! L + snd (carry D ss) - 1"
    have c: "c = currIndex (located f L (q + 1)) + ovf"
      using e by (simp add: c_def g_def located_fields D_def)
    note b = located_bounds(1,2) [OF assms(1,2), of "q + 1"]
    have wrap: "(if c \<ge> totalChunkCount f then c - totalChunkCount f else c)
                  = currIndex (located f L (q + 1))"
      using b by (auto simp: c ovf_def)
    have cmax: "c \<le> 2147483647"
    proof (cases "mixed_radix ss q = map (\<lambda>s. s - 1) ss")
      case True
      have "mixed_radix ss (q + 1) = map (\<lambda>s. 0) ss"
        using D1 [unfolded D_def] by (simp add: True carry_all_max)
      then have "currIndex (located f L (q + 1)) = z - 1"
        by (simp add: c1 wsum_zero)
      then show ?thesis
        using H True by (simp add: c ovf_def z_def)
    next
      case False
      then show ?thesis
        using b rr(4) by (simp add: c ovf_def)
    qed
    define X where "X = take L (levelIndex f) @ mixed_radix ss (q + 1)"
    define Y where "Y = currIndex (located f L (q + 1))"
    have sg: "levelSteps g = levelSteps f" "totalChunkCount g = totalChunkCount f"
      "levelSizes g = levelSizes f"
      by (simp_all add: g_def located_fields)
    have x: "take L (levelIndex g) @ fst (carry (drop L (levelIndex g)) (drop L (levelSteps g))) = X"
      unfolding dg sg ss_def [symmetric] D1 X_def ..
    have y: "(if c \<ge> totalChunkCount g then c - totalChunkCount g else c) = Y"
      unfolding sg Y_def by (rule wrap)
    have ir: "in_range (drop L (levelIndex g)) (drop L (levelSteps g))"
      unfolding dg sg ss_def [symmetric] D_def using pos by (rule mixed_radix_in_range)
    have p: "0 \<le> currIndex g" "0 \<le> levelSizes g ! L" "0 \<le> totalChunkCount g"
      using located_bounds(1,2) [OF assms(1,2), of q] rs(3)
      by (simp_all add: g_def [symmetric] sg z_def)
    have cb: "currIndex g + levelSizes g ! L + snd (carry (drop L (levelIndex g)) (drop L (levelSteps g))) - 1
                \<le> 2147483647"
      unfolding dg sg ss_def [symmetric] using cmax by (simp add: c_def sg)
    have "advanceChunk g =
            Inr (g\<lparr>levelIndex := take L (levelIndex g) @ fst (carry (drop L (levelIndex g)) (drop L (levelSteps g))),
                   currIndex := (if c \<ge> totalChunkCount g then c - totalChunkCount g else c)\<rparr>)"
      unfolding c_def dg(1) [symmetric]
      using advanceChunk_abs [of g L, OF _ _ lg ir _ p cb] assms(2) rr(5)
      by (simp add: g_def located_fields ss_def)
    also have "\<dots> = Inr (g\<lparr>levelIndex := X, currIndex := Y\<rparr>)"
      unfolding x y ..
    also have "g\<lparr>levelIndex := X, currIndex := Y\<rparr> = f\<lparr>levelIndex := X, currLevel := int L, currIndex := Y\<rparr>"
      by (simp add: g_def located_def)
    also have "f\<lparr>levelIndex := X, currLevel := int L, currIndex := Y\<rparr> = located f L (q + 1)"
      unfolding X_def Y_def ss_def by (simp add: located_def)
    finally show "advanceChunk (located f L q) = Inr (located f L (q + 1))"
      by (simp add: g_def)
  qed
qed

lemma advances_located:
  assumes "ready f" "L < LEVELS f" "totalChunkCount f + levelSizes f ! L \<le> 2147483648"
  shows "0 \<le> q \<Longrightarrow> advances k (located f L q) = Inr (located f L (q + int k))"
proof (induction k arbitrary: q)
  case 0
  then show ?case by simp
next
  case (Suc k)
  have "0 \<le> q + 1" using Suc.prems by simp
  from Suc.IH [OF this] show ?case
    using advance_located_raw(1) [OF assms(1,2) Suc.prems assms(3)] by (simp add: add.assoc)
qed

lemma located_mod:
  assumes "ready f"
  shows "located f L (q mod nodes_at f L) = located f L q"
proof -
  have "\<forall>s\<in>set (drop L (levelSteps f)). 0 < s"
    using assms by (auto simp: ready_def dest!: in_set_dropD)
  from mixed_radix_mod [OF this, of q] show ?thesis
    by (simp add: located_def nodes_at_def)
qed

lemma nodes_at_pos:
  assumes "ready f"
  shows "0 < nodes_at f L"
proof -
  have "\<forall>s\<in>set (drop L (levelSteps f)). 0 < s"
    using assms by (auto simp: ready_def dest!: in_set_dropD)
  then show ?thesis
    unfolding nodes_at_def by (rule prod_list_positive)
qed

lemma located_step_mono:
  assumes "ready f" "L < LEVELS f" "0 \<le> q" "q + 1 < nodes_at f L"
  shows "currIndex (located f L q) < currIndex (located f L (q + 1))"
proof -
  define ss where "ss = drop L (levelSteps f)"
  have pos: "\<forall>s\<in>set ss. 0 < s" and ne: "ss \<noteq> []"
    using assms(1,2) by (auto simp: ready_def LEVELS_def ss_def dest!: in_set_dropD)
  have nm: "mixed_radix ss q \<noteq> map (\<lambda>s. s - 1) ss"
    using mixed_radix_not_max [OF pos assms(3)] assms(4) by (simp add: nodes_at_def ss_def)
  have "mixed_radix ss q \<noteq> []"
    using ne by (cases ss) simp_all
  then have c: "1 \<le> snd (carry (mixed_radix ss q) ss)"
    using ne by (rule carry_count_pos)
  have z: "1 \<le> levelSizes f ! L"
    using ready_sizes(3) [OF assms(1,2)] .
  show ?thesis
    using advance_located_raw(2) [OF assms(1,2,3)] nm c z
    by (simp add: ss_def [symmetric])
qed

lemma located_strict_mono:
  assumes "ready f" "L < LEVELS f" "0 \<le> a" "a < b" "b < nodes_at f L"
  shows "currIndex (located f L a) < currIndex (located f L b)"
proof -
  have "b < nodes_at f L \<longrightarrow> currIndex (located f L a) < currIndex (located f L b)"
    using \<open>a < b\<close>
  proof (induction b rule: int_gr_induct)
    case base
    then show ?case
      using located_step_mono [OF assms(1,2,3)] by simp
  next
    case (step i)
    show ?case
    proof
      assume i: "i + 1 < nodes_at f L"
      have "0 \<le> i" using step.hyps assms(3) by simp
      from located_step_mono [OF assms(1,2) this i] step.IH i show
        "currIndex (located f L a) < currIndex (located f L (i + 1))"
        by simp
    qed
  qed
  then show ?thesis using assms(5) by simp
qed

lemma located_inj:
  assumes "ready f" "L < LEVELS f" "0 \<le> a" "a < nodes_at f L" "0 \<le> b" "b < nodes_at f L"
    "currIndex (located f L a) = currIndex (located f L b)"
  shows "a = b"
proof (rule ccontr)
  assume "a \<noteq> b"
  then consider "a < b" | "b < a" by linarith
  then show False
  proof cases
    case 1
    from located_strict_mono [OF assms(1,2,3) 1 assms(6)] assms(7) show False by simp
  next
    case 2
    from located_strict_mono [OF assms(1,2,5) 2 assms(4)] assms(7) show False by simp
  qed
qed

lemma slot_located:
  assumes "ready f" "L < LEVELS f" "0 \<le> q" "totalChunkCount f + levelSizes f ! L \<le> 2147483648"
  shows "slot (located f L q) k = Some (currIndex (located f L ((q + int k) mod nodes_at f L)))"
  using advances_located [OF assms(1,2,4,3)] located_mod [OF assms(1)] by (simp add: slot_def)

lemma slot_distinct:
  assumes "ready f" "L < LEVELS f" "0 \<le> q" "i < j" "int j < nodes_at f L"
    and "totalChunkCount f + levelSizes f ! L \<le> 2147483648"
  shows "slot (located f L q) i \<noteq> slot (located f L q) j"
proof
  define P where "P = nodes_at f L"
  assume "slot (located f L q) i = slot (located f L q) j"
  then have e: "currIndex (located f L ((q + int i) mod P)) = currIndex (located f L ((q + int j) mod P))"
    by (simp add: slot_located [OF assms(1,2,3,6)] P_def)
  have P: "0 < P" using nodes_at_pos [OF assms(1)] by (simp add: P_def)
  have "(q + int i) mod P = (q + int j) mod P"
    using located_inj [OF assms(1,2) _ _ _ _ e [unfolded P_def]] P
    by (simp add: P_def)
  then have "(q + int j) mod P = (q + int i) mod P"
    by simp
  then have "P dvd (q + int j) - (q + int i)"
    by (simp only: mod_eq_dvd_iff)
  then have "P dvd int j - int i" by simp
  moreover have "0 < int j - int i" "int j - int i < P"
    using assms(4,5) by (simp_all add: P_def)
  ultimately show False
    using zdvd_not_zless by blast
qed

lemma slot_periodic:
  assumes "ready f" "L < LEVELS f" "0 \<le> q" "totalChunkCount f + levelSizes f ! L \<le> 2147483648"
  shows "slot (located f L q) (k + nat (nodes_at f L)) = slot (located f L q) k"
proof -
  have "0 < nodes_at f L" using nodes_at_pos [OF assms(1)] .
  then have "(q + int (k + nat (nodes_at f L))) mod nodes_at f L = (q + int k) mod nodes_at f L"
    by (simp add: add.assoc [symmetric])
  then show ?thesis
    by (simp only: slot_located [OF assms])
qed

lemma finder44_facts:
  "valid_config (new_finder [4, 4])" "init (new_finder [4, 4]) = Inr finder44"
  "LEVELS finder44 = 2" "goToChunk finder44 0 7 = Inr finder44_at7"
  "nodes_at finder44 0 = 16"
  by (simp_all add: valid_config_def new_finder_def LEVELS_def init_def init_sizes.simps
      finder44_def finder44_at7_def goToChunk_def goToChunk_digits.simps goToChunk_sum.simps
      cdiv_def cmod_def nodes_at_def int_add_def int_mul_def int_div_def int_mod_def int_ok_def)

subsection \<open>The view resolver\<close>

lemma requestView_scan_spec:
  "- 1 \<le> i0 \<Longrightarrow>
   - 1 \<le> requestView_scan lc q i0 \<and> requestView_scan lc q i0 \<le> i0 \<and>
   (0 \<le> requestView_scan lc q i0 \<longrightarrow> int_le_quotient (lc ! nat (requestView_scan lc q i0)) q) \<and>
   (\<forall>j. requestView_scan lc q i0 < j \<and> j \<le> i0 \<longrightarrow> \<not> int_le_quotient (lc ! nat j) q)"
proof (induction lc q i0 rule: requestView_scan.induct)
  case (1 lc q i)
  show ?case
  proof (cases "0 \<le> i")
    case True
    show ?thesis
    proof (cases "int_le_quotient (lc ! nat i) q")
      case le: True
      then have "requestView_scan lc q i = i"
        using True by (subst requestView_scan.simps) simp
      then show ?thesis using True le by auto
    next
      case False
      then have e: "requestView_scan lc q i = requestView_scan lc q (i - 1)"
        using True by (subst requestView_scan.simps) simp
      have "- 1 \<le> i - 1" using True by simp
      from "1.IH" [OF True False this] have
        ih: "- 1 \<le> requestView_scan lc q (i - 1)" "requestView_scan lc q (i - 1) \<le> i - 1"
          "0 \<le> requestView_scan lc q (i - 1) \<longrightarrow>
             int_le_quotient (lc ! nat (requestView_scan lc q (i - 1))) q"
          "\<forall>j. requestView_scan lc q (i - 1) < j \<and> j \<le> i - 1 \<longrightarrow> \<not> int_le_quotient (lc ! nat j) q"
        by blast+
      have "\<not> int_le_quotient (lc ! nat j) q" if "requestView_scan lc q (i - 1) < j \<and> j \<le> i" for j
      proof (cases "j = i")
        case True
        then show ?thesis using False by simp
      next
        case ne: False
        then show ?thesis using ih(4) that by simp
      qed
      then show ?thesis
        unfolding e using ih(1,2,3) by auto
    qed
  next
    case False
    then have "requestView_scan lc q i = i"
      by (subst requestView_scan.simps) simp
    then show ?thesis using False "1.prems" by auto
  qed
qed

lemma int_le_quotient_qualifies:
  "startSamples v < endSamples v \<Longrightarrow>
   int_le_quotient (levelCompression r ! i)
     (double_div (endSamples v - startSamples v) (resolution v)) = qualifies r v i"
  by (simp add: double_div_def qualifies_def)

lemma snap_arith:
  fixes a R :: int
  assumes "0 < R"
  shows "R dvd a div R * R" "a div R * R \<le> a" "a < a div R * R + R"
    "R dvd (a + R - 1) div R * R" "a \<le> (a + R - 1) div R * R" "(a + R - 1) div R * R < a + R"
proof -
  show "R dvd a div R * R" "R dvd (a + R - 1) div R * R" by simp_all
  have m: "a div R * R = a - a mod R" for a
    by (simp add: algebra_simps minus_mod_eq_mult_div)
  have b: "0 \<le> a mod R" "a mod R < R" for a
    using assms by simp_all
  show "a div R * R \<le> a" "a < a div R * R + R"
    using b [of a] by (simp_all add: m)
  show "(a + R - 1) div R * R < a + R"
    using b(1) [of "a + R - 1"] by (simp add: m)
  show "a \<le> (a + R - 1) div R * R"
    using b(2) [of "a + R - 1"] by (simp add: m)
qed

lemma requestView_snap_eq:
  assumes "0 < c" "0 < cs" "0 \<le> startSamples v" "startSamples v < endSamples v"
    "endSamples v \<le> 2147483647"
  shows "requestView_snap c cs v =
           (if snap_fits (c * cs) v then Inr (snapped c (c * cs) v) else Inl Overflow)"
proof -
  define R where "R = c * cs"
  define s where "s = startSamples v div R * R"
  define e where "e = (endSamples v + R - 1) div R * R"
  have R: "0 < R" using assms(1,2) by (simp add: R_def)
  note sa = snap_arith [OF R]
  show ?thesis
  proof (cases "snap_fits R v")
    case True
    then have f: "R \<le> 2147483647" "endSamples v + R \<le> 2147483647"
      by (simp_all add: snap_fits_def)
    have sb: "0 \<le> s" "s \<le> startSamples v"
      using sa(2) [of "startSamples v"] assms(3) R
      by (simp_all add: s_def pos_imp_zdiv_nonneg_iff)
    have eb: "endSamples v \<le> e" "e < endSamples v + R"
      using sa(5,6) [of "endSamples v"] by (simp_all add: e_def)
    have 1: "int_mul c cs = Inr R"
      using R f by (simp add: int_mul_eq int_okI R_def)
    have 2: "int_div (startSamples v) R = Inr (startSamples v div R)"
      using assms(3) R by (rule int_div_pos)
    have 3: "int_mul (startSamples v div R) R = Inr s"
      using sb assms(4,5) by (simp add: int_mul_eq int_okI s_def)
    have 4: "int_add (endSamples v) R = Inr (endSamples v + R)"
      using assms(3,4) R f by (simp add: int_add_eq int_okI)
    have 5: "int_sub (endSamples v + R) 1 = Inr (endSamples v + R - 1)"
      using assms(3,4) R f by (simp add: int_sub_eq int_okI)
    have 6: "int_div (endSamples v + R - 1) R = Inr ((endSamples v + R - 1) div R)"
      using assms(3,4) R by (intro int_div_pos) simp_all
    have 7: "int_mul ((endSamples v + R - 1) div R) R = Inr e"
      using eb assms(3,4) f by (simp add: int_mul_eq int_okI e_def)
    have 8: "int_sub e s = Inr (e - s)"
      using eb sb assms(3,4) f by (simp add: int_sub_eq int_okI)
    have 9: "int_div (e - s) c = Inr ((e - s) div c)"
      using eb sb assms(1,4) by (intro int_div_pos) simp_all
    have "requestView_snap c cs v
            = Inr \<lparr>startSamples = s, endSamples = e, resolution = (e - s) div c\<rparr>"
      unfolding requestView_snap_def 1 sum.case 2 3 4 5 6 7 8 9 ..
    then show ?thesis
      using True by (simp add: snapped_def R_def s_def e_def)
  next
    case False
    show ?thesis
    proof (cases "R \<le> 2147483647")
      case le: True
      then have o: "\<not> int_ok (endSamples v + R)"
        using False by (simp add: snap_fits_def int_ok_def)
      have sb: "0 \<le> startSamples v div R * R" "startSamples v div R * R \<le> startSamples v"
        using sa(2) [of "startSamples v"] assms(3) R
        by (simp_all add: pos_imp_zdiv_nonneg_iff)
      have 1: "int_mul c cs = Inr R"
        using R le by (simp add: int_mul_eq int_okI R_def)
      have 2: "int_div (startSamples v) R = Inr (startSamples v div R)"
        using assms(3) R by (rule int_div_pos)
      have 3: "int_mul (startSamples v div R) R = Inr (startSamples v div R * R)"
        using sb assms(4,5) by (simp add: int_mul_eq int_okI)
      have 4: "int_add (endSamples v) R = Inl Overflow"
        using o by (simp add: int_add_def)
      have "requestView_snap c cs v = Inl Overflow"
        unfolding requestView_snap_def 1 sum.case 2 3 4 ..
      then show ?thesis
        using False by (simp add: R_def)
    next
      case gt: False
      then have "int_mul c cs = Inl Overflow"
        by (simp add: int_mul_def int_ok_def R_def)
      then have "requestView_snap c cs v = Inl Overflow"
        by (simp add: requestView_snap_def)
      then show ?thesis
        using False by (simp add: R_def)
    qed
  qed
qed

lemma requestView_cases:
  assumes "valid_reader r" "in_bounds r v"
  defines "i \<equiv> requestView_scan (levelCompression r)
                  (double_div (endSamples v - startSamples v) (resolution v))
                  (int (length (levelCompression r)) - 1)"
  defines "k \<equiv> nat (if i < 0 then 0 else i)"
  defines "c \<equiv> levelCompression r ! k"
  shows "requestView r v =
           (if i < 0 \<and> allowOriginal r
            then Inr (v\<lparr>resolution := endSamples v - startSamples v\<rparr>, - 1)
            else if \<not> snap_fits (c * chunkSize r) v then Inl Overflow
            else if endSamples (snapped c (c * chunkSize r) v) \<le> lengthSamples r
                 then Inr (snapped c (c * chunkSize r) v, int k)
                 else Inl AssertionFailed)"
    and "k < length (levelCompression r)" and "0 < c" and "- 1 \<le> i"
proof -
  have ne: "levelCompression r \<noteq> []" and cs: "0 < chunkSize r"
    and pos: "\<forall>c\<in>set (levelCompression r). 0 < c" and lm: "lengthSamples r \<le> 2147483647"
    using assms(1) by (simp_all add: valid_reader_def)
  have b: "0 \<le> startSamples v" "startSamples v < endSamples v" "endSamples v \<le> lengthSamples r"
    using assms(2) by (simp_all add: in_bounds_def)
  have "- 1 \<le> int (length (levelCompression r)) - 1" by simp
  from requestView_scan_spec [OF this, of "levelCompression r"
      "double_div (endSamples v - startSamples v) (resolution v)"]
  have i: "- 1 \<le> i" "i \<le> int (length (levelCompression r)) - 1"
    by (simp_all add: i_def)
  show "- 1 \<le> i" by fact
  show k: "k < length (levelCompression r)"
    using i ne by (auto simp: k_def)
  then show c: "0 < c"
    using pos by (simp add: c_def)
  have em: "endSamples v \<le> 2147483647"
    using b lm by simp
  have sp: "int_sub (endSamples v) (startSamples v) = Inr (endSamples v - startSamples v)"
    using b em by (simp add: int_sub_eq int_okI)
  note sn = requestView_snap_eq [OF c cs b(1,2) em]
  have i1: "i < 0 \<Longrightarrow> i = - 1" using i by simp
  show "requestView r v =
           (if i < 0 \<and> allowOriginal r
            then Inr (v\<lparr>resolution := endSamples v - startSamples v\<rparr>, - 1)
            else if \<not> snap_fits (c * chunkSize r) v then Inl Overflow
            else if endSamples (snapped c (c * chunkSize r) v) \<le> lengthSamples r
                 then Inr (snapped c (c * chunkSize r) v, int k)
                 else Inl AssertionFailed)"
  proof (cases "i < 0 \<and> allowOriginal r")
    case True
    then show ?thesis
      using b i1 by (simp add: requestView_def sp i_def [symmetric] Let_def)
  next
    case False
    have ik: "(if i < 0 then 0 else i) = int k" by (simp add: k_def)
    show ?thesis
      using False b ne
      unfolding requestView_def sp sum.case i_def [symmetric] Let_def ik
      by (auto simp: c_def [symmetric] sn)
  qed
qed


lemma scan_unique:
  assumes "valid_reader r" "in_bounds r v" "i < length (levelCompression r)" "qualifies r v i"
    "\<forall>j. i < j \<and> j < length (levelCompression r) \<longrightarrow> \<not> qualifies r v j"
  shows "requestView_scan (levelCompression r)
           (double_div (endSamples v - startSamples v) (resolution v))
           (int (length (levelCompression r)) - 1) = int i"
proof -
  define q where "q = double_div (endSamples v - startSamples v) (resolution v)"
  define s where "s = requestView_scan (levelCompression r) q (int (length (levelCompression r)) - 1)"
  have b: "startSamples v < endSamples v" using assms(2) by (simp add: in_bounds_def)
  have Q: "int_le_quotient (levelCompression r ! j) q = qualifies r v j" for j
    unfolding q_def using b by (rule int_le_quotient_qualifies)
  have "- 1 \<le> int (length (levelCompression r)) - 1" by simp
  from requestView_scan_spec [OF this, of "levelCompression r" q]
  have sp: "- 1 \<le> s" "s \<le> int (length (levelCompression r)) - 1"
    "0 \<le> s \<longrightarrow> qualifies r v (nat s)"
    "\<forall>j. s < j \<and> j \<le> int (length (levelCompression r)) - 1 \<longrightarrow> \<not> qualifies r v (nat j)"
    by (simp_all add: s_def Q)
  have ge: "int i \<le> s"
  proof (rule ccontr)
    assume "\<not> int i \<le> s"
    then have "s < int i \<and> int i \<le> int (length (levelCompression r)) - 1"
      using assms(3) by simp
    then have "\<not> qualifies r v (nat (int i))"
      using sp(4) by blast
    then show False using assms(4) by simp
  qed
  have "\<not> int i < s"
  proof
    assume l: "int i < s"
    then have "qualifies r v (nat s)" using sp(3) by simp
    moreover have "i < nat s \<and> nat s < length (levelCompression r)"
      using l sp(2) by auto
    ultimately show False using assms(5) by blast
  qed
  then show ?thesis using ge by (simp add: s_def q_def)
qed

lemma scan_none:
  assumes "in_bounds r v" "\<forall>j<length (levelCompression r). \<not> qualifies r v j"
  shows "requestView_scan (levelCompression r)
           (double_div (endSamples v - startSamples v) (resolution v))
           (int (length (levelCompression r)) - 1) = - 1"
proof -
  define q where "q = double_div (endSamples v - startSamples v) (resolution v)"
  define s where "s = requestView_scan (levelCompression r) q (int (length (levelCompression r)) - 1)"
  have b: "startSamples v < endSamples v" using assms(1) by (simp add: in_bounds_def)
  have Q: "int_le_quotient (levelCompression r ! j) q = qualifies r v j" for j
    unfolding q_def using b by (rule int_le_quotient_qualifies)
  have "- 1 \<le> int (length (levelCompression r)) - 1" by simp
  from requestView_scan_spec [OF this, of "levelCompression r" q]
  have sp: "- 1 \<le> s" "s \<le> int (length (levelCompression r)) - 1"
    "0 \<le> s \<longrightarrow> qualifies r v (nat s)"
    by (simp_all add: s_def Q)
  have "\<not> 0 \<le> s"
  proof
    assume "0 \<le> s"
    then have "qualifies r v (nat s)" "nat s < length (levelCompression r)"
      using sp by auto
    then show False using assms(2) by blast
  qed
  then show ?thesis using sp(1) by (simp add: s_def q_def)
qed

subsection \<open>Initialisation of the reader\<close>

lemma length_compression_from [simp]: "length (compression_from c ss) = length ss"
  by (induction ss arbitrary: c) auto

lemma compression_from_nth_Suc:
  "Suc k < length ss \<Longrightarrow> compression_from c ss ! Suc k = compression_from c ss ! k * ss ! k"
proof (induction ss arbitrary: c k)
  case Nil
  then show ?case by simp
next
  case (Cons s ss)
  show ?case
  proof (cases k)
    case 0
    then show ?thesis using Cons.prems by (cases ss) simp_all
  next
    case (Suc j)
    then show ?thesis using Cons.IH [of j "c * s"] Cons.prems by simp
  qed
qed

lemma compression_from_pos:
  "0 < c \<Longrightarrow> \<forall>s\<in>set ss. 0 < s \<Longrightarrow> \<forall>x\<in>set (compression_from c ss). 0 < x"
proof (induction ss arbitrary: c)
  case Nil
  then show ?case by simp
next
  case (Cons s ss)
  have "0 < c * s" using Cons.prems by simp
  from Cons.IH [OF this] Cons.prems show ?case by simp
qed

lemma compression_from_nth_0: "ss \<noteq> [] \<Longrightarrow> compression_from c ss ! 0 = c"
  by (cases ss) simp_all

lemma init_compression_eq:
  "length lc = n \<Longrightarrow> length steps = n \<Longrightarrow> 0 < i \<Longrightarrow> i \<le> n \<Longrightarrow>
   take i lc = take i (compression_from c steps) \<Longrightarrow>
   init_compression steps n i lc =
     (if compression_fits (compression_from c steps ! (i - 1)) (drop (i - 1) steps)
      then Inr (compression_from c steps) else Inl Overflow)"
proof (induction steps n i lc rule: init_compression.induct)
  case (1 steps n i lc)
  obtain j where j: "i = Suc j"
    using "1.prems"(3) by (cases i) auto
  define z where "z = compression_from c steps ! j"
  define s where "s = steps ! j"
  define v where "v = z * s"
  have goal: "init_compression steps n i lc =
     (if compression_fits z (drop j steps) then Inr (compression_from c steps) else Inl Overflow)"
  proof (cases "i < n")
    case True
    have "lc ! j = take i lc ! j"
      by (simp add: j)
    also have "\<dots> = take i (compression_from c steps) ! j"
      by (simp only: "1.prems"(5))
    also have "\<dots> = z"
      by (simp add: z_def j)
    finally have lz: "lc ! j = z" .
    have v: "v = compression_from c steps ! i"
      using compression_from_nth_Suc [of j steps c] True "1.prems"(2)
      by (simp add: v_def z_def s_def j)
    have d1: "drop j steps = s # drop i steps"
      using True "1.prems"(2) Cons_nth_drop_Suc [of j steps] by (simp add: s_def j)
    have d2: "drop i steps = steps ! i # drop (Suc i) steps"
      using True "1.prems"(2) by (simp add: Cons_nth_drop_Suc)
    have lf: "compression_fits z (drop j steps) \<longleftrightarrow> int_ok v \<and> compression_fits v (drop i steps)"
      unfolding d1 d2 v_def by simp
    show ?thesis
    proof (cases "int_ok v")
      case ok: True
      have m1: "int_mul (lc ! (i - 1)) (steps ! (i - 1)) = Inr v"
        using ok by (simp add: j lz s_def [symmetric] int_mul_eq v_def)
      have "take (Suc i) (lc[i := v]) = take i lc @ [v]"
        using True "1.prems" by (simp add: take_Suc_conv_app_nth)
      also have "\<dots> = take (Suc i) (compression_from c steps)"
        using True "1.prems" v by (simp add: take_Suc_conv_app_nth)
      finally have t: "take (Suc i) (lc[i := v]) = take (Suc i) (compression_from c steps)" .
      have "init_compression steps n (Suc i) (lc[i := v]) =
              (if compression_fits v (drop i steps) then Inr (compression_from c steps)
               else Inl Overflow)"
        using "1.IH" [OF True m1] t True "1.prems" by (simp add: v)
      moreover have "init_compression steps n i lc = init_compression steps n (Suc i) (lc[i := v])"
        by (subst init_compression.simps) (simp only: True if_True m1 sum.case)
      ultimately show ?thesis
        using ok by (simp add: lf)
    next
      case False
      then have "init_compression steps n i lc = Inl Overflow"
        using True
        by (subst init_compression.simps) (auto simp: j lz s_def [symmetric] int_mul_def v_def)
      then show ?thesis
        using False by (auto simp: lf)
    qed
  next
    case False
    then have i: "i = n" using "1.prems" by simp
    then have "lc = compression_from c steps"
      using "1.prems" by simp
    moreover have "compression_fits z (drop j steps)"
    proof -
      have "drop j steps = [steps ! j]"
        using i "1.prems"(2) Cons_nth_drop_Suc [of j steps] by (simp add: j)
      then show ?thesis by simp
    qed
    ultimately show ?thesis
      using False by (subst init_compression.simps) simp
  qed
  then show ?case
    by (simp add: j z_def)
qed


lemma mipmapReader_init_ready:
  assumes "steps \<noteq> []" and "\<forall>s\<in>set steps. 1 \<le> s"
    and "LEVELS (finder r0) = length steps"
    and "length (levelSizes (finder r0)) = length steps"
    and "length (levelIndex (finder r0)) = length steps"
    and "length (levelCompression r0) = length steps"
    and "0 < baseLevelStep r0" and "0 < chunkSize r0" and "lengthSamples r0 \<le> 2147483647"
    and "sizes_fit steps" and "compression_fits (baseLevelStep r0) steps"
  shows "\<exists>r. mipmapReader_init r0 steps = Inr r \<and> reader_ready r \<and>
           levelSteps (finder r) = steps \<and>
           levelCompression r = compression_from (baseLevelStep r0) steps \<and>
           lengthSamples r = lengthSamples r0 \<and> chunkSize r = chunkSize r0 \<and>
           mipmap r = mipmap r0 \<and> allowOriginal r = allowOriginal r0"
proof -
  define n where "n = length steps"
  define f where "f = (finder r0)\<lparr>levelSteps := take n steps\<rparr>"
  define lc where "lc = compression_from (baseLevelStep r0) steps"
  have n: "0 < n" using assms(1) by (simp add: n_def)
  have fe: "f = (finder r0)\<lparr>levelSteps := steps\<rparr>"
    by (simp add: f_def n_def)
  have vf: "valid_config f"
    using assms by (simp add: valid_config_def f_def LEVELS_def n_def)
  have "0 < LEVELS f" "length (levelSizes f) = LEVELS f"
    using vf by (simp_all add: valid_config_def)
  from init_eq [OF this] assms(10)
  obtain f' where f': "init f = Inr f'"
    by (simp add: fe)
  note rd = init_ready [OF vf f']
  have "take 1 ((levelCompression r0)[0 := baseLevelStep r0]) = take 1 lc"
    using assms(1,6) by (cases steps; cases "levelCompression r0") (simp_all add: lc_def)
  then have "init_compression steps n 1 ((levelCompression r0)[0 := baseLevelStep r0]) =
      (if compression_fits (lc ! (1 - 1)) (drop (1 - 1) steps) then Inr lc else Inl Overflow)"
    unfolding lc_def using assms(6) n by (intro init_compression_eq) (simp_all add: n_def Suc_le_eq)
  then have ic: "init_compression steps n 1 ((levelCompression r0)[0 := baseLevelStep r0]) = Inr lc"
    using assms(1,11) by (simp add: lc_def compression_from_nth_0)
  define r where "r = r0\<lparr>finder := f', levelCompression := lc\<rparr>"
  have e: "mipmapReader_init r0 steps = Inr r"
    using n ic f' [unfolded fe] assms(3)
    by (simp add: mipmapReader_init_def Let_def n_def [symmetric] r_def)
  have "\<forall>s\<in>set steps. 0 < s" using assms(2) by auto
  from compression_from_pos [OF assms(7) this]
  have vr: "valid_reader r"
    using assms(1,8,9) by (simp add: valid_reader_def r_def lc_def) (cases steps, simp_all)
  have "reader_ready r"
    using vr rd(1,2) by (simp add: reader_ready_def r_def lc_def LEVELS_def f_def n_def)
  moreover have "levelSteps (finder r) = steps"
    using rd(2) by (simp add: r_def f_def n_def)
  ultimately show ?thesis
    using e by (intro exI [of _ r]) (simp add: r_def lc_def)
qed

lemma reader_4_16_init: "mipmapReader_init (blank_reader len) [4, 4] = Inr (reader_4_16 len)"
  by (simp add: mipmapReader_init_def blank_reader_def reader_4_16_def new_finder_def LEVELS_def
      init_def init_sizes.simps init_compression.simps finder44_def int_mul_def int_add_def
      int_ok_def)

lemma reader_4_16_valid: "len \<le> 2147483647 \<Longrightarrow> valid_reader (reader_4_16 len)"
  by (simp add: valid_reader_def reader_4_16_def)

lemma reader_4_16_ready: "len \<le> 2147483647 \<Longrightarrow> reader_ready (reader_4_16 len)"
  by (simp add: reader_ready_def reader_4_16_valid)
     (simp add: reader_4_16_def finder44_def ready_def LEVELS_def)

lemma reader_ramp_ready: "reader_ready reader_ramp"
  using reader_4_16_ready [of 1024]
  by (simp add: reader_ramp_def reader_ready_def valid_reader_def)

subsection \<open>The level search and the errors of the readers\<close>

lemma find_level_spec:
  "i0 \<le> length lc \<Longrightarrow>
   i0 \<le> find_level lc c i0 \<and> find_level lc c i0 \<le> length lc \<and>
   (find_level lc c i0 < length lc \<longrightarrow> lc ! find_level lc c i0 = c) \<and>
   (\<forall>k. i0 \<le> k \<and> k < find_level lc c i0 \<longrightarrow> lc ! k \<noteq> c)"
proof (induction lc c i0 rule: find_level.induct)
  case (1 lc c i)
  show ?case
  proof (cases "i < length lc")
    case True
    show ?thesis
    proof (cases "lc ! i = c")
      case eq: True
      then have "find_level lc c i = i"
        using True by (subst find_level.simps) simp
      then show ?thesis using True eq by auto
    next
      case False
      then have e: "find_level lc c i = find_level lc c (Suc i)"
        using True by (subst find_level.simps) simp
      have "Suc i \<le> length lc" using True by simp
      from "1.IH" [OF True False this] have
        ih: "Suc i \<le> find_level lc c (Suc i)" "find_level lc c (Suc i) \<le> length lc"
          "find_level lc c (Suc i) < length lc \<longrightarrow> lc ! find_level lc c (Suc i) = c"
          "\<forall>k. Suc i \<le> k \<and> k < find_level lc c (Suc i) \<longrightarrow> lc ! k \<noteq> c"
        by blast+
      have "lc ! k \<noteq> c" if "i \<le> k \<and> k < find_level lc c (Suc i)" for k
      proof (cases "k = i")
        case True
        then show ?thesis using False by simp
      next
        case ne: False
        then show ?thesis using ih(4) that by simp
      qed
      then show ?thesis
        unfolding e using ih(1,2,3) by auto
    qed
  next
    case False
    then have "find_level lc c i = i"
      by (subst find_level.simps) simp
    then show ?thesis using False "1.prems" by auto
  qed
qed

lemma find_level_none:
  "find_level lc c 0 = length lc \<longleftrightarrow> c \<notin> set lc"
proof
  assume a: "find_level lc c 0 = length lc"
  have "\<forall>k. 0 \<le> k \<and> k < find_level lc c 0 \<longrightarrow> lc ! k \<noteq> c"
    using find_level_spec [of 0 lc c] by simp
  then show "c \<notin> set lc"
    unfolding a by (auto simp: in_set_conv_nth)
next
  assume a: "c \<notin> set lc"
  have s: "find_level lc c 0 \<le> length lc"
    "find_level lc c 0 < length lc \<longrightarrow> lc ! find_level lc c 0 = c"
    using find_level_spec [of 0 lc c] by simp_all
  have "\<not> find_level lc c 0 < length lc"
  proof
    assume l: "find_level lc c 0 < length lc"
    then have "lc ! find_level lc c 0 \<in> set lc" by simp
    then show False using s(2) l a by simp
  qed
  then show "find_level lc c 0 = length lc" using s(1) by simp
qed

lemma int_ops_error:
  "int_add a b \<noteq> Inl LogicError" "int_sub a b \<noteq> Inl LogicError" "int_mul a b \<noteq> Inl LogicError"
  "int_div a b \<noteq> Inl LogicError" "int_mod a b \<noteq> Inl LogicError"
  by (simp_all add: int_add_def int_sub_def int_mul_def int_div_def int_mod_def)

lemma goToChunk_digits_error: "goToChunk_digits steps i q li \<noteq> Inl LogicError"
proof (induction steps i q li rule: goToChunk_digits.induct)
  case (1 steps i q li)
  show ?case
    using "1.IH" int_ops_error
    by (subst goToChunk_digits.simps) (auto split: sum.splits)
qed

lemma goToChunk_sum_error: "goToChunk_sum n li sizes i acc \<noteq> Inl LogicError"
proof (induction n li sizes i acc rule: goToChunk_sum.induct)
  case (1 n li sizes i acc)
  show ?case
    using "1.IH" int_ops_error
    by (subst goToChunk_sum.simps) (auto split: sum.splits)
qed

lemma goToChunk_error: "goToChunk f level q \<noteq> Inl LogicError"
  using goToChunk_digits_error goToChunk_sum_error int_ops_error
  by (auto simp: goToChunk_def split: sum.splits)

lemma advanceChunk_carry_error: "advanceChunk_carry steps i li c \<noteq> Inl LogicError"
proof (induction steps i li c rule: advanceChunk_carry.induct)
  case (1 steps i li c)
  show ?case
    using "1.IH" int_ops_error
    by (subst advanceChunk_carry.simps) (auto split: sum.splits)
qed

lemma advanceChunk_error: "advanceChunk f \<noteq> Inl LogicError"
  using advanceChunk_carry_error int_ops_error
  by (auto simp: advanceChunk_def Let_def split: sum.splits prod.splits)

lemma read_elements_error:
  "read_elements ar mm yl yu A B offs d ce x dst \<noteq> Inl LogicError"
proof (induction ar mm yl yu A B offs d ce x dst rule: read_elements.induct)
  case (1 ar mm yl yu A B offs d ce x dst)
  show ?case
  proof
    assume a: "read_elements ar mm yl yu A B offs d ce x dst = Inl LogicError"
    then have lt: "x < ce"
      by (subst (asm) read_elements.simps) (simp split: if_splits)
    from a lt obtain b p p0 p1 dst' where s: "int_add offs x = Inr b" "int_add d x = Inr p"
      "int_mul p 2 = Inr p0" "int_add p0 1 = Inr p1"
      and r: "read_elements ar mm yl yu A B offs d ce (x + 1) dst' = Inl LogicError"
      and d: "dst' = (dst(p0 := rescale ar yl A B (clamp ar (to_double ar (sint (unpack_lower (mm b)))) yl yu)))
                (p1 := rescale ar yl A B (clamp ar (to_double ar (sint (unpack_upper (mm b)))) yl yu))"
      by (subst (asm) read_elements.simps)
         (auto simp: Let_def int_ops_error split: sum.splits)
    from "1.IH" [OF lt s refl refl refl refl refl refl refl] r [unfolded d] show False
      by (rule notE)
  qed
qed

lemma readSpectrum_elements_error:
  "readSpectrum_elements ar mm yl yu A B offs d cs x dst \<noteq> Inl LogicError"
proof (induction ar mm yl yu A B offs d cs x dst rule: readSpectrum_elements.induct)
  case (1 ar mm yl yu A B offs d cs x dst)
  show ?case
  proof
    assume a: "readSpectrum_elements ar mm yl yu A B offs d cs x dst = Inl LogicError"
    then have lt: "x < cs"
      by (subst (asm) readSpectrum_elements.simps) (simp split: if_splits)
    from a lt obtain x2 a0 a1 p p0 p1 dst' where s: "int_mul x 2 = Inr x2"
      "int_add offs x2 = Inr a0" "int_add a0 1 = Inr a1" "int_add d x = Inr p"
      "int_mul p 2 = Inr p0" "int_add p0 1 = Inr p1"
      and r: "readSpectrum_elements ar mm yl yu A B offs d cs (x + 1) dst' = Inl LogicError"
      and d: "dst' = (dst(p0 := fst (spectrum_sample ar yl yu A B (mm a0) (mm a1))))
                (p1 := snd (spectrum_sample ar yl yu A B (mm a0) (mm a1)))"
      by (subst (asm) readSpectrum_elements.simps)
         (auto simp: Let_def int_ops_error split_beta split: sum.splits)
    from "1.IH" [OF lt s refl prod.collapse] r [unfolded d] show False
      by (rule notE)
  qed
qed

lemma read_loop_error:
  "read_loop ar mm yl yu A B ce de f dst d = Some y \<Longrightarrow> y \<noteq> Inl LogicError"
proof (induction rule: read_loop.raw_induct [rotated 1, consumes 1])
  case (1 S ar mm yl yu A B ce de f dst d y)
  show ?case
  proof
    assume y: "y = Inl LogicError"
    from "1.hyps" [unfolded y]
    obtain f' dst' d' where "S ar mm yl yu A B ce de f' dst' d' = Some (Inl LogicError)"
      by (auto simp: advanceChunk_error int_ops_error read_elements_error
          split: if_splits sum.splits)
    from "1.IH" [OF this] show False by simp
  qed
qed

lemma readSpectrum_loop_error:
  "readSpectrum_loop ar mm yl yu A B cs de f dst d = Some y \<Longrightarrow> y \<noteq> Inl LogicError"
proof (induction rule: readSpectrum_loop.raw_induct [rotated 1, consumes 1])
  case (1 S ar mm yl yu A B cs de f dst d y)
  show ?case
  proof
    assume y: "y = Inl LogicError"
    from "1.hyps" [unfolded y]
    obtain f' dst' d' where "S ar mm yl yu A B cs de f' dst' d' = Some (Inl LogicError)"
      by (auto simp: advanceChunk_error int_ops_error readSpectrum_elements_error
          split: if_splits sum.splits)
    from "1.IH" [OF this] show False by simp
  qed
qed

lemma read_from_error: "read_from ar CH r v dst yl yu i c \<noteq> Some (Inl LogicError)"
  using goToChunk_error int_ops_error
  by (auto simp: read_from_def split: sum.splits option.splits dest: read_loop_error)

lemma readSpectrum_index_error: "readSpectrum_index r v i c \<noteq> Inl LogicError"
  using int_ops_error
  by (auto simp: readSpectrum_index_def split: sum.splits if_splits)

lemma readSpectrum_from_error: "readSpectrum_from ar r v dst yl yu i c \<noteq> Some (Inl LogicError)"
  using goToChunk_error readSpectrum_index_error
  by (auto simp: readSpectrum_from_def split: sum.splits option.splits
      dest: readSpectrum_loop_error)

lemma readers_at_level:
  fixes r :: mipmapReader and v :: mipmapReaderView
  assumes "compression v = Inr c"
  defines "i \<equiv> find_level (levelCompression r) c 0"
  shows "read ar CHANNELS r v dst yl yu =
           (if i = length (levelCompression r) then Some (Inl LogicError)
            else read_from ar CHANNELS r v dst yl yu i c)"
    and "readSpectrum ar r v dst yl yu =
           (if i = length (levelCompression r) then Some (Inl LogicError)
            else readSpectrum_from ar r v dst yl yu i c)"
    and "i = length (levelCompression r) \<longleftrightarrow> c \<notin> set (levelCompression r)"
    and "c \<in> set (levelCompression r) \<Longrightarrow>
           i < length (levelCompression r) \<and> levelCompression r ! i = c \<and>
           (\<forall>j<i. levelCompression r ! j \<noteq> c)"
proof -
  obtain w where w: "int_sub (endSamples v) (startSamples v) = Inr w"
    "int_div w (resolution v) = Inr c"
    using assms(1) by (auto simp: compression_def split: sum.splits)
  show "read ar CHANNELS r v dst yl yu =
              (if i = length (levelCompression r) then Some (Inl LogicError)
               else read_from ar CHANNELS r v dst yl yu i c)"
    by (simp add: read_def Let_def w i_def)
  show "readSpectrum ar r v dst yl yu =
              (if i = length (levelCompression r) then Some (Inl LogicError)
               else readSpectrum_from ar r v dst yl yu i c)"
    by (simp add: readSpectrum_def Let_def w i_def)
  show n: "i = length (levelCompression r) \<longleftrightarrow> c \<notin> set (levelCompression r)"
    unfolding i_def by (rule find_level_none)
  show "i < length (levelCompression r) \<and> levelCompression r ! i = c \<and>
           (\<forall>j<i. levelCompression r ! j \<noteq> c)"
    if "c \<in> set (levelCompression r)"
  proof -
    have ne: "i \<noteq> length (levelCompression r)" using that n by simp
    have sp: "i \<le> length (levelCompression r)"
      "i < length (levelCompression r) \<longrightarrow> levelCompression r ! i = c"
      "\<forall>k. 0 \<le> k \<and> k < i \<longrightarrow> levelCompression r ! k \<noteq> c"
      using find_level_spec [of 0 "levelCompression r" c] by (simp_all add: i_def)
    have "i < length (levelCompression r)" using ne sp(1) by simp
    then show ?thesis
      using sp(2,3) by simp
  qed
qed

lemma readers_trap:
  assumes "compression v = Inl e"
  shows "read ar CHANNELS r v dst yl yu = Some (Inl e)"
    and "readSpectrum ar r v dst yl yu = Some (Inl e)"
  using assms by (auto simp: compression_def read_def readSpectrum_def split: sum.splits)

subsection \<open>The start of the spectrum reader\<close>

lemma readSpectrum_index_eq:
  assumes "valid_reader r" and "in_bounds r v" and "i < length (levelCompression r)"
    and "compr = levelCompression r ! i"
  defines "totalChunks \<equiv> lengthSamples r div levelCompression r ! i div chunkSize r"
  defines "startChunk \<equiv> startSamples v div compr div chunkSize r"
  shows "readSpectrum_index r v i compr =
           (if startChunk + totalChunks div 2 \<le> 2147483647
            then Inr ((startChunk + totalChunks div 2) mod totalChunks) else Inl Overflow)"
    and "0 \<le> startChunk" and "startChunk \<le> totalChunks"
    and "0 \<le> (startChunk + totalChunks div 2) mod totalChunks"
proof -
  define c where "c = levelCompression r ! i"
  define cs where "cs = chunkSize r"
  have c: "0 < c" and cs: "0 < cs"
    using assms(1,3) by (simp_all add: valid_reader_def c_def cs_def)
  have b: "0 \<le> startSamples v" "startSamples v \<le> lengthSamples r" "0 \<le> lengthSamples r"
    using assms(2) by (simp_all add: in_bounds_def)
  have T: "totalChunks = lengthSamples r div c div cs" and S: "startChunk = startSamples v div c div cs"
    by (simp_all add: totalChunks_def startChunk_def c_def cs_def assms(4))
  have s0: "0 \<le> startSamples v div c" and l0: "0 \<le> lengthSamples r div c"
    using b c by (simp_all add: pos_imp_zdiv_nonneg_iff)
  show S0: "0 \<le> startChunk"
    using s0 cs by (simp add: S pos_imp_zdiv_nonneg_iff)
  have "startSamples v div c \<le> lengthSamples r div c"
    using b(2) c by (rule zdiv_mono1)
  then show ST: "startChunk \<le> totalChunks"
    unfolding S T using cs by (rule zdiv_mono1)
  have T0: "0 \<le> totalChunks" using S0 ST by simp
  have h0: "0 \<le> totalChunks div 2" using T0 by simp
  define idx where "idx = startChunk + totalChunks div 2"
  have w: "(if totalChunks \<le> idx then idx - totalChunks else idx) = idx mod totalChunks"
  proof (cases "totalChunks = 0")
    case True
    then show ?thesis using S0 ST by (simp add: idx_def)
  next
    case False
    then have p: "0 < totalChunks" using T0 by simp
    then have h: "totalChunks div 2 < totalChunks" "0 \<le> totalChunks div 2" by simp_all
    show ?thesis
    proof (cases "totalChunks \<le> idx")
      case True
      have "idx mod totalChunks = (idx - totalChunks) mod totalChunks"
        by simp
      also have "\<dots> = idx - totalChunks"
        using True h ST by (intro mod_pos_pos_trivial) (simp_all add: idx_def)
      finally show ?thesis using True by simp
    next
      case False
      then show ?thesis
        using S0 h by (simp add: idx_def mod_pos_pos_trivial)
    qed
  qed
  have 1: "int_div (lengthSamples r) (levelCompression r ! i) = Inr (lengthSamples r div c)"
    using b(3) c unfolding c_def by (rule int_div_pos)
  have 2: "int_div (lengthSamples r div c) (chunkSize r) = Inr totalChunks"
    using int_div_pos [OF l0 cs] by (simp add: T cs_def)
  have 3: "int_div (startSamples v) compr = Inr (startSamples v div c)"
    using int_div_pos [OF b(1) c] by (simp add: assms(4) c_def)
  have 4: "int_div (startSamples v div c) (chunkSize r) = Inr startChunk"
    using int_div_pos [OF s0 cs] by (simp add: S cs_def)
  have 5: "int_div totalChunks 2 = Inr (totalChunks div 2)"
    using T0 by (intro int_div_pos) simp_all
  show "readSpectrum_index r v i compr =
           (if startChunk + totalChunks div 2 \<le> 2147483647
            then Inr ((startChunk + totalChunks div 2) mod totalChunks) else Inl Overflow)"
  proof (cases "idx \<le> 2147483647")
    case True
    have 6: "int_add startChunk (totalChunks div 2) = Inr idx"
      using True S0 h0 by (simp add: int_add_eq int_okI idx_def)
    have 7: "(if totalChunks \<le> idx then int_sub idx totalChunks else Inr idx)
               = Inr (idx mod totalChunks)"
      using True T0 w by (auto simp: int_sub_eq int_okI)
    have "readSpectrum_index r v i compr = Inr (idx mod totalChunks)"
      unfolding readSpectrum_index_def 1 sum.case 2 3 4 5 6 7 ..
    then show ?thesis
      using True by (simp add: idx_def)
  next
    case False
    then have 6: "int_add startChunk (totalChunks div 2) = Inl Overflow"
      by (simp add: int_add_def int_ok_def idx_def)
    have "readSpectrum_index r v i compr = Inl Overflow"
      unfolding readSpectrum_index_def 1 sum.case 2 3 4 5 6 ..
    then show ?thesis
      using False by (simp add: idx_def)
  qed
  show "0 \<le> (startChunk + totalChunks div 2) mod totalChunks"
  proof (cases "totalChunks = 0")
    case True
    then show ?thesis using S0 by simp
  next
    case False
    then show ?thesis using T0 by simp
  qed
qed

subsection \<open>Packed bounds\<close>

lemma mask32: "(0xffffffff :: 64 word) = mask 32"
  by (simp add: mask_eq_exp_minus_1)

lemma unpack_lower_take: "unpack_lower e = ucast (take_bit 32 e)"
  by (simp add: unpack_lower_def mask32 take_bit_eq_mask)

lemma unpack_upper_drop: "unpack_upper e = ucast (drop_bit 32 e)"
  unfolding unpack_upper_def mask32
  by (rule bit_word_eqI) (auto simp: bit_simps)

lemma unpack_pack1: "unpack_lower (pack lo hi) = lo"
  unfolding unpack_lower_take pack_def
  by (rule bit_word_eqI) (auto simp: bit_simps)

lemma unpack_pack2: "unpack_upper (pack lo hi) = hi"
  unfolding unpack_upper_drop pack_def
  by (rule bit_word_eqI) (auto simp: bit_simps dest: bit_imp_le_length)

lemma unpack_uint1:
  "uint (unpack_lower e) = uint e mod 2 ^ 32"
proof -
  have "uint (ucast (take_bit 32 e) :: 32 word) = take_bit 32 (uint e)"
    by (simp add: unsigned_ucast_eq unsigned_take_bit_eq)
  also have "\<dots> = uint e mod 2 ^ 32"
    by (rule take_bit_eq_mod)
  finally show ?thesis
    unfolding unpack_lower_take .
qed

lemma unpack_uint2:
  "uint (unpack_upper e) = uint e div 2 ^ 32"
proof -
  have "uint e < 2 ^ 64"
    using uint_lt2p [of e] by simp
  then have "uint e div 2 ^ 32 < 2 ^ 32"
    by simp
  moreover have "0 \<le> uint e div 2 ^ 32"
    by (simp add: pos_imp_zdiv_nonneg_iff)
  ultimately have "take_bit 32 (uint e div 2 ^ 32) = uint e div 2 ^ 32"
    by (simp add: take_bit_int_eq_self)
  moreover have "take_bit 64 (uint e) = uint e"
    using uint_lt2p [of e] by (simp add: take_bit_int_eq_self)
  then have "uint (ucast (drop_bit 32 e) :: 32 word) = take_bit 32 (drop_bit 32 (uint e))"
    by (simp add: unsigned_ucast_eq unsigned_drop_bit_eq)
  moreover have "drop_bit 32 (uint e) = uint e div 2 ^ 32"
    by (rule drop_bit_eq_div)
  ultimately show ?thesis
    unfolding unpack_upper_drop by simp
qed

lemma sint_neg32:
  fixes l :: "32 word"
  assumes "sint l \<noteq> - (2 ^ 31)"
  shows "sint (- l) = - sint l"
proof -
  have "- (2 ^ 31) \<le> sint l" "sint l < 2 ^ 31"
    using sint_ge [of l] sint_lt [of l] by simp_all
  then have "- (2 ^ 31) \<le> - sint l" "- sint l < 2 ^ 31"
    using assms by simp_all
  then have "signed_take_bit 31 (- sint l) = - sint l"
    by (simp add: signed_take_bit_int_eq_self)
  then show ?thesis
    by (simp add: sint_word_ariths)
qed

lemma sint_neg32_min:
  fixes l :: "32 word"
  assumes "sint l = - (2 ^ 31)"
  shows "sint (- l) = - (2 ^ 31)"
  by (simp add: sint_word_ariths assms)

lemma estimate_overflow:
  fixes lower upper :: "32 word"
  assumes "sint lower = - (2 ^ 31)"
  shows "max (sint (- lower)) (sint upper) = sint upper"
  using sint_neg32_min [OF assms] sint_ge [of upper] by simp

lemma estimate_no_overflow:
  fixes lower upper :: "32 word"
  assumes "sint lower \<noteq> - (2 ^ 31)"
  shows "max (sint (- lower)) (sint upper) = max (- sint lower) (sint upper)"
  using sint_neg32 [OF assms] by simp

subsection \<open>The loops of the spectrum reader\<close>

lemma signed_max:
  fixes a b :: "32 word"
  shows "sint (if b <s a then a else b) = max (sint a) (sint b)"
  by (simp add: word_sless_alt max_def)

lemma spectrum_sample_value:
  "spectrum_sample ar yl yu (scale_A ar yl yu) (scale_B ar) elementRe elementIm =
     (spectrum_value ar yl yu elementRe elementIm, spectrum_value ar yl yu elementRe elementIm)"
  unfolding spectrum_sample_def spectrum_value_def rescale_def scale_A_def scale_B_def Let_def
    signed_max ..

lemma readSpectrum_elements_writes:
  "0 \<le> x0 \<Longrightarrow> 0 \<le> offs \<Longrightarrow> 0 \<le> d \<Longrightarrow> offs + 2 * cs \<le> 2147483648 \<Longrightarrow>
   (d + cs) * 2 \<le> 2147483648 \<Longrightarrow>
   \<exists>dst'. readSpectrum_elements ar mm yl yu A B offs d cs x0 dst = Inr dst' \<and>
     (\<forall>x. x0 \<le> x \<and> x < cs \<longrightarrow>
        dst' ((d + x) * 2)
          = fst (spectrum_sample ar yl yu A B (mm (offs + x * 2)) (mm (offs + x * 2 + 1))) \<and>
        dst' ((d + x) * 2 + 1)
          = snd (spectrum_sample ar yl yu A B (mm (offs + x * 2)) (mm (offs + x * 2 + 1)))) \<and>
     (\<forall>p. p < (d + x0) * 2 \<longrightarrow> dst' p = dst p)"
proof (induction ar mm yl yu A B offs d cs x0 dst rule: readSpectrum_elements.induct)
  case (1 ar mm yl yu A B offs d cs x0 dst)
  show ?case
  proof (cases "x0 < cs")
    case True
    define v where "v = spectrum_sample ar yl yu A B (mm (offs + x0 * 2)) (mm (offs + x0 * 2 + 1))"
    define dst1 where "dst1 = (dst((d + x0) * 2 := fst v))((d + x0) * 2 + 1 := snd v)"
    have s: "int_mul x0 2 = Inr (x0 * 2)" "int_add offs (x0 * 2) = Inr (offs + x0 * 2)"
      "int_add (offs + x0 * 2) 1 = Inr (offs + x0 * 2 + 1)" "int_add d x0 = Inr (d + x0)"
      "int_mul (d + x0) 2 = Inr ((d + x0) * 2)" "int_add ((d + x0) * 2) 1 = Inr ((d + x0) * 2 + 1)"
      using True "1.prems" by (simp_all add: int_mul_eq int_add_eq int_okI)
    have e: "readSpectrum_elements ar mm yl yu A B offs d cs x0 dst
               = readSpectrum_elements ar mm yl yu A B offs d cs (x0 + 1) dst1"
      by (subst readSpectrum_elements.simps)
         (simp only: True if_True s sum.case Let_def split_beta dst1_def v_def)
    have "0 \<le> x0 + 1" using "1.prems" by simp
    from "1.IH" [OF True s refl prod.collapse this "1.prems"(2,3,4,5), folded v_def, folded dst1_def]
    obtain dst' where r: "readSpectrum_elements ar mm yl yu A B offs d cs (x0 + 1) dst1 = Inr dst'"
      and ih: "\<forall>x. x0 + 1 \<le> x \<and> x < cs \<longrightarrow>
        dst' ((d + x) * 2)
          = fst (spectrum_sample ar yl yu A B (mm (offs + x * 2)) (mm (offs + x * 2 + 1))) \<and>
        dst' ((d + x) * 2 + 1)
          = snd (spectrum_sample ar yl yu A B (mm (offs + x * 2)) (mm (offs + x * 2 + 1)))"
      and fr0: "\<forall>p. p < (d + (x0 + 1)) * 2 \<longrightarrow> dst' p = dst1 p"
      by (elim exE conjE) (rule that)
    have fr: "dst' p = dst1 p" if "p < (d + x0) * 2 + 2" for p
      using fr0 [rule_format, of p] that by (simp add: algebra_simps)
    have here: "dst' ((d + x0) * 2) = fst v" "dst' ((d + x0) * 2 + 1) = snd v"
      using fr [of "(d + x0) * 2"] fr [of "(d + x0) * 2 + 1"] by (simp_all add: dst1_def)
    have below: "dst' p = dst p" if "p < (d + x0) * 2" for p
      using fr [of p] that by (simp add: dst1_def)
    have "\<forall>x. x0 \<le> x \<and> x < cs \<longrightarrow>
        dst' ((d + x) * 2)
          = fst (spectrum_sample ar yl yu A B (mm (offs + x * 2)) (mm (offs + x * 2 + 1))) \<and>
        dst' ((d + x) * 2 + 1)
          = snd (spectrum_sample ar yl yu A B (mm (offs + x * 2)) (mm (offs + x * 2 + 1)))"
    proof (intro allI impI)
      fix x
      assume x: "x0 \<le> x \<and> x < cs"
      show "dst' ((d + x) * 2)
          = fst (spectrum_sample ar yl yu A B (mm (offs + x * 2)) (mm (offs + x * 2 + 1))) \<and>
        dst' ((d + x) * 2 + 1)
          = snd (spectrum_sample ar yl yu A B (mm (offs + x * 2)) (mm (offs + x * 2 + 1)))"
      proof (cases "x = x0")
        case True
        then show ?thesis using here by (simp add: v_def)
      next
        case False
        then have "x0 + 1 \<le> x \<and> x < cs" using x by simp
        then show ?thesis using ih by blast
      qed
    qed
    moreover have "\<forall>p. p < (d + x0) * 2 \<longrightarrow> dst' p = dst p"
      using below by blast
    ultimately show ?thesis
      unfolding e r by (intro exI [of _ dst'] conjI refl)
  next
    case False
    then have "readSpectrum_elements ar mm yl yu A B offs d cs x0 dst = Inr dst"
      by (subst readSpectrum_elements.simps) simp
    then show ?thesis using False by auto
  qed
qed

lemma readSpectrum_loop_total:
  assumes "ready f0" "L < LEVELS f0" "0 < cs" "totalChunkCount f0 * 2 * cs \<le> 2147483648"
    and "(n + cs) * 2 \<le> 2147483648"
  shows "0 \<le> q \<Longrightarrow> 0 \<le> d \<Longrightarrow> (d + cs) * 2 \<le> 2147483648 \<Longrightarrow>
    \<exists>f' dst'. readSpectrum_loop ar mm yl yu (scale_A ar yl yu) (scale_B ar) cs n
                 (located f0 L q) dst d = Some (Inr (f', dst')) \<and>
      (\<forall>k x. (k = 0 \<or> d + int k * cs < n) \<and> 0 \<le> x \<and> x < cs \<longrightarrow>
         dst' ((d + int k * cs + x) * 2)
           = chunk_value ar yl yu mm cs (currIndex (located f0 L (q + int k))) x \<and>
         dst' ((d + int k * cs + x) * 2 + 1)
           = chunk_value ar yl yu mm cs (currIndex (located f0 L (q + int k))) x) \<and>
      (\<forall>p. p < d * 2 \<longrightarrow> dst' p = dst p)"
proof (induction "nat (n - d)" arbitrary: q dst d rule: less_induct)
  case less
  define g where "g = located f0 L q"
  define T where "T = totalChunkCount f0"
  define offs where "offs = currIndex g * 2 * cs"
  have cb: "0 \<le> currIndex g" "currIndex g < T"
    using located_bounds(1,2) [OF assms(1,2), of q] by (simp_all add: g_def T_def)
  have T1: "(currIndex g + 1) * (2 * cs) \<le> T * (2 * cs)"
    using cb assms(3) by (intro mult_right_mono) simp_all
  then have ob: "offs + 2 * cs \<le> 2147483648"
    using assms(4) by (simp add: offs_def T_def algebra_simps)
  have o0: "0 \<le> offs"
    using cb assms(3) by (simp add: offs_def)
  have c2: "currIndex g * 2 \<le> offs"
    using cb assms(3) mult_left_mono [of 1 cs "currIndex g * 2"] by (simp add: offs_def)
  have m1: "int_mul (currIndex g) 2 = Inr (currIndex g * 2)"
    using cb c2 ob assms(3) by (simp add: int_mul_eq int_okI)
  have m2: "int_mul (currIndex g * 2) cs = Inr offs"
    using o0 ob assms(3) by (simp add: int_mul_eq int_okI offs_def)
  have a1: "int_add d cs = Inr (d + cs)"
    using less.prems(2,3) assms(3) by (simp add: int_add_eq int_okI)
  from readSpectrum_elements_writes [where ?x0.0 = 0 and offs = offs and d = d and cs = cs
      and ar = ar and mm = mm and yl = yl and yu = yu and A = "scale_A ar yl yu"
      and B = "scale_B ar" and dst = dst, OF order_refl o0 less.prems(2) ob less.prems(3)]
  obtain dst1 where el: "readSpectrum_elements ar mm yl yu (scale_A ar yl yu) (scale_B ar)
                           offs d cs 0 dst = Inr dst1"
    and W0: "\<forall>x. 0 \<le> x \<and> x < cs \<longrightarrow>
        dst1 ((d + x) * 2)
          = fst (spectrum_sample ar yl yu (scale_A ar yl yu) (scale_B ar)
                   (mm (offs + x * 2)) (mm (offs + x * 2 + 1))) \<and>
        dst1 ((d + x) * 2 + 1)
          = snd (spectrum_sample ar yl yu (scale_A ar yl yu) (scale_B ar)
                   (mm (offs + x * 2)) (mm (offs + x * 2 + 1)))"
    and Fr0: "\<forall>p. p < (d + 0) * 2 \<longrightarrow> dst1 p = dst p"
    by (elim exE conjE) (rule that)
  have W: "dst1 ((d + x) * 2) = chunk_value ar yl yu mm cs (currIndex g) x"
    "dst1 ((d + x) * 2 + 1) = chunk_value ar yl yu mm cs (currIndex g) x"
    if "0 \<le> x" "x < cs" for x
    using W0 [rule_format, of x] that
    by (simp_all add: spectrum_sample_value chunk_value_def offs_def)
  have Fr: "dst1 p = dst p" if "p < d * 2" for p
    using Fr0 [rule_format, of p] that by simp
  have body: "readSpectrum_loop ar mm yl yu (scale_A ar yl yu) (scale_B ar) cs n g dst d =
      (if n \<le> d + cs then Some (Inr (g, dst1))
       else (case advanceChunk g of
               Inl e \<Rightarrow> Some (Inl e)
             | Inr f' \<Rightarrow> readSpectrum_loop ar mm yl yu (scale_A ar yl yu) (scale_B ar) cs n
                           f' dst1 (d + cs)))"
    by (subst readSpectrum_loop.simps) (simp only: m1 m2 el a1 sum.case)
  show ?case
  proof (cases "n \<le> d + cs")
    case True
    have e: "readSpectrum_loop ar mm yl yu (scale_A ar yl yu) (scale_B ar) cs n g dst d
               = Some (Inr (g, dst1))"
      using True by (simp add: body)
    have only0: "k = 0" if "k = 0 \<or> d + int k * cs < n" for k
    proof (rule ccontr)
      assume "k \<noteq> 0"
      then have "1 \<le> int k" by simp
      then have "1 * cs \<le> int k * cs"
        using assms(3) by (intro mult_right_mono) simp_all
      then show False using that True \<open>k \<noteq> 0\<close> by simp
    qed
    have "\<forall>k x. (k = 0 \<or> d + int k * cs < n) \<and> 0 \<le> x \<and> x < cs \<longrightarrow>
         dst1 ((d + int k * cs + x) * 2)
           = chunk_value ar yl yu mm cs (currIndex (located f0 L (q + int k))) x \<and>
         dst1 ((d + int k * cs + x) * 2 + 1)
           = chunk_value ar yl yu mm cs (currIndex (located f0 L (q + int k))) x"
    proof (intro allI impI)
      fix k x
      assume a: "(k = 0 \<or> d + int k * cs < n) \<and> 0 \<le> x \<and> x < cs"
      then have k: "k = 0" using only0 [of k] by simp
      show "dst1 ((d + int k * cs + x) * 2)
           = chunk_value ar yl yu mm cs (currIndex (located f0 L (q + int k))) x \<and>
         dst1 ((d + int k * cs + x) * 2 + 1)
           = chunk_value ar yl yu mm cs (currIndex (located f0 L (q + int k))) x"
        using W [of x] a by (simp add: k g_def)
    qed
    moreover have "\<forall>p. p < d * 2 \<longrightarrow> dst1 p = dst p"
      using Fr by simp
    ultimately show ?thesis
      unfolding g_def [symmetric] e by (intro exI [of _ g] exI [of _ dst1] conjI refl)
  next
    case False
    have sz: "levelSizes f0 ! L \<le> T"
      using ready_ranges(1) [OF assms(1,2)] by (simp add: T_def)
    have "T * 1 \<le> T * cs"
      using cb assms(3) by (intro mult_left_mono) simp_all
    then have H: "totalChunkCount f0 + levelSizes f0 ! L \<le> 2147483648"
      using sz assms(4) by (simp add: T_def [symmetric] algebra_simps)
    have adv: "advanceChunk g = Inr (located f0 L (q + 1))"
      unfolding g_def using assms(1,2) less.prems(1) H by (rule advance_located_raw(1))
    have e: "readSpectrum_loop ar mm yl yu (scale_A ar yl yu) (scale_B ar) cs n g dst d
               = readSpectrum_loop ar mm yl yu (scale_A ar yl yu) (scale_B ar) cs n
                   (located f0 L (q + 1)) dst1 (d + cs)"
      using False by (simp add: body adv)
    have m: "nat (n - (d + cs)) < nat (n - d)"
      using False assms(3) by simp
    have q1: "0 \<le> q + 1" using less.prems by simp
    have d1: "0 \<le> d + cs" using less.prems(2) assms(3) by simp
    have b1: "(d + cs + cs) * 2 \<le> 2147483648"
      using False assms(5) by simp
    from less.hyps [OF m q1 d1 b1, of dst1]
    obtain f' dst' where r:
      "readSpectrum_loop ar mm yl yu (scale_A ar yl yu) (scale_B ar) cs n
         (located f0 L (q + 1)) dst1 (d + cs) = Some (Inr (f', dst'))"
      and R0: "\<forall>k x. (k = 0 \<or> d + cs + int k * cs < n) \<and> 0 \<le> x \<and> x < cs \<longrightarrow>
         dst' ((d + cs + int k * cs + x) * 2)
           = chunk_value ar yl yu mm cs (currIndex (located f0 L (q + 1 + int k))) x \<and>
         dst' ((d + cs + int k * cs + x) * 2 + 1)
           = chunk_value ar yl yu mm cs (currIndex (located f0 L (q + 1 + int k))) x"
      and F0: "\<forall>p. p < (d + cs) * 2 \<longrightarrow> dst' p = dst1 p"
      by (elim exE conjE) (rule that)
    have R: "dst' ((d + cs + int k * cs + x) * 2)
           = chunk_value ar yl yu mm cs (currIndex (located f0 L (q + 1 + int k))) x \<and>
         dst' ((d + cs + int k * cs + x) * 2 + 1)
           = chunk_value ar yl yu mm cs (currIndex (located f0 L (q + 1 + int k))) x"
      if "k = 0 \<or> d + cs + int k * cs < n" "0 \<le> x" "x < cs" for k x
      using R0 [rule_format, of k x] that by simp
    have F: "dst' p = dst1 p" if "p < (d + cs) * 2" for p
      using F0 [rule_format, of p] that .
    have "\<forall>k x. (k = 0 \<or> d + int k * cs < n) \<and> 0 \<le> x \<and> x < cs \<longrightarrow>
         dst' ((d + int k * cs + x) * 2)
           = chunk_value ar yl yu mm cs (currIndex (located f0 L (q + int k))) x \<and>
         dst' ((d + int k * cs + x) * 2 + 1)
           = chunk_value ar yl yu mm cs (currIndex (located f0 L (q + int k))) x"
    proof (intro allI impI)
      fix k x
      assume a: "(k = 0 \<or> d + int k * cs < n) \<and> 0 \<le> x \<and> x < cs"
      show "dst' ((d + int k * cs + x) * 2)
           = chunk_value ar yl yu mm cs (currIndex (located f0 L (q + int k))) x \<and>
         dst' ((d + int k * cs + x) * 2 + 1)
           = chunk_value ar yl yu mm cs (currIndex (located f0 L (q + int k))) x"
      proof (cases k)
        case 0
        have lt: "(d + x) * 2 < (d + cs) * 2" "(d + x) * 2 + 1 < (d + cs) * 2"
          using a by simp_all
        have "dst' ((d + x) * 2) = dst1 ((d + x) * 2)"
          "dst' ((d + x) * 2 + 1) = dst1 ((d + x) * 2 + 1)"
          using F [OF lt(1)] F [OF lt(2)] by simp_all
        then show ?thesis
          using W [of x] a by (simp add: 0 g_def)
      next
        case (Suc j)
        have i: "d + int k * cs = d + cs + int j * cs" "q + int k = q + 1 + int j"
          by (simp_all add: Suc algebra_simps)
        have "j = 0 \<or> d + cs + int j * cs < n"
          using a by (simp add: Suc algebra_simps)
        from R [OF this, of x] a show ?thesis
          unfolding i by simp
      qed
    qed
    moreover have "\<forall>p. p < d * 2 \<longrightarrow> dst' p = dst p"
    proof (intro allI impI)
      fix p
      assume p: "p < d * 2"
      then have "p < (d + cs) * 2" using assms(3) by simp
      then show "dst' p = dst p" using F Fr p by simp
    qed
    ultimately show ?thesis
      unfolding g_def [symmetric] e r by (intro exI [of _ f'] exI [of _ dst'] conjI refl)
  qed
qed

section \<open>The claims about the chunk finder\<close>



text \<open>
  Claim C2, as amended. The period of the slots visited by \<^verbatim>\<open>goToChunk\<close> and
  repeated \<^verbatim>\<open>advanceChunk\<close> is the number of nodes of the level, the product of
  \<open>levelSteps[i]\<close> over \<open>i \<ge> level\<close>: the slots of the first that many steps are
  pairwise distinct, and the slot after that many further advances is always the
  same slot again. No advance fails, provided that
  \<open>totalChunkCount + levelSizes[level] - 1\<close> is an \<^verbatim>\<open>int\<close>: line 59 adds the size
  of the level to \<open>currIndex\<close> before the ring subtraction.
\<close>

theorem slots_distinct_then_periodic:
  assumes "valid_config f0" and "init f0 = Inr f"
    and "0 \<le> level" and "level < int (LEVELS f)" and "0 \<le> index"
    and "totalChunkCount f + levelSizes f ! nat level - 1 \<le> 2147483647"
  shows "\<exists>g. goToChunk f level index = Inr g \<and>
           (\<forall>k. slot g k \<noteq> None) \<and>
           (\<forall>i j. i < j \<and> int j < nodes_at f (nat level) \<longrightarrow> slot g i \<noteq> slot g j) \<and>
           (\<forall>k. slot g (k + nat (nodes_at f (nat level))) = slot g k)"
proof -
  define L where "L = nat level"
  have r: "ready f" using init_ready(1) [OF assms(1,2)] .
  have L: "L < LEVELS f" "level = int L" using assms(3,4) by (simp_all add: L_def)
  have H: "totalChunkCount f + levelSizes f ! L \<le> 2147483648"
    using assms(6) by (simp add: L_def)
  have go: "goToChunk f level index = Inr (located f L index)"
    unfolding L(2) using r L(1) assms(5) by (rule goToChunk_located)
  have a: "slot (located f L index) k \<noteq> None" for k
    by (simp add: slot_located [OF r L(1) assms(5) H])
  have b: "slot (located f L index) i \<noteq> slot (located f L index) j"
    if "i < j \<and> int j < nodes_at f L" for i j
    using slot_distinct [OF r L(1) assms(5) _ _ H, of i j] that by blast
  have c: "slot (located f L index) (k + nat (nodes_at f L)) = slot (located f L index) k" for k
    by (rule slot_periodic [OF r L(1) assms(5) H])
  show ?thesis
    unfolding L_def [symmetric] using go a b c by blast
qed

text \<open>The theorem of C2 at steps \<open>[4, 4]\<close>, level 0, index 7: the period is 16.\<close>

theorem slots_distinct_then_periodic_witness:
  "valid_config (new_finder [4, 4]) \<and> init (new_finder [4, 4]) = Inr finder44 \<and>
   (0::int) \<le> 0 \<and> 0 < int (LEVELS finder44) \<and> (0::int) \<le> 7 \<and>
   totalChunkCount finder44 + levelSizes finder44 ! nat 0 - 1 \<le> 2147483647 \<and>
   goToChunk finder44 0 7 = Inr finder44_at7 \<and> nodes_at finder44 (nat 0) = 16 \<and>
   slot finder44_at7 2 \<noteq> None \<and> slot finder44_at7 3 \<noteq> slot finder44_at7 12 \<and>
   slot finder44_at7 (5 + nat 16) = slot finder44_at7 5"
proof -
  have h: "(0::int) \<le> 0" "0 < int (LEVELS finder44)" "(0::int) \<le> 7"
    "totalChunkCount finder44 + levelSizes finder44 ! nat 0 - 1 \<le> 2147483647"
    by (simp_all add: finder44_facts) (simp add: finder44_def)
  from slots_distinct_then_periodic [OF finder44_facts(1,2) h]
  obtain g where g: "goToChunk finder44 0 7 = Inr g" "\<forall>k. slot g k \<noteq> None"
    "\<forall>i j. i < j \<and> int j < nodes_at finder44 (nat 0) \<longrightarrow> slot g i \<noteq> slot g j"
    "\<forall>k. slot g (k + nat (nodes_at finder44 (nat 0))) = slot g k"
    by blast
  have e: "g = finder44_at7"
    using g(1) finder44_facts(4) by simp
  have n: "nodes_at finder44 (nat 0) = 16"
    using finder44_facts(5) by simp
  have "slot finder44_at7 2 \<noteq> None"
    using g(2) e by blast
  moreover have "slot finder44_at7 3 \<noteq> slot finder44_at7 12"
    using g(3) [rule_format, of 3 12] e n by simp
  moreover have "slot finder44_at7 (5 + nat 16) = slot finder44_at7 5"
    using g(4) [rule_format, of 5] e n by simp
  ultimately show ?thesis
    using h finder44_facts n by simp
qed

text \<open>
  Claim C2 as stated fails. With the steps \<open>[4, 4]\<close> at level 0 the claimed period
  \<open>totalChunkCount / levelSizes[0]\<close> is 20, and the cursor started at index 0 is
  back at slot 0 after 16 advances: the slots of steps 0 and 16, both among the
  first 20, are equal.
\<close>

theorem slots_repeat_early_counterexample:
  "valid_config (new_finder [4, 4]) \<and> init (new_finder [4, 4]) = Inr finder44 \<and>
   goToChunk finder44 0 0 = Inr finder44 \<and>
   totalChunkCount finder44 div levelSizes finder44 ! 0 = 20 \<and>
   (0::nat) < 16 \<and> (16::int) < 20 \<and>
   slot finder44 0 = Some 0 \<and> slot finder44 16 = Some 0"
proof -
  have "goToChunk finder44 0 0 = Inr finder44"
    by (simp add: finder44_def goToChunk_def goToChunk_digits.simps goToChunk_sum.simps
        cdiv_def cmod_def LEVELS_def int_add_def int_mul_def int_div_def int_mod_def int_ok_def)
  moreover have "slot finder44 0 = Some 0"
    by (simp add: slot_def finder44_def)
  moreover have "slot finder44 16 = Some 0"
    by code_simp
  moreover have "totalChunkCount finder44 div levelSizes finder44 ! 0 = 20"
    by (simp add: finder44_def)
  ultimately show ?thesis
    using finder44_facts by simp
qed

text \<open>
  Claim C3, as amended. For a valid configuration, after \<^verbatim>\<open>goToChunk\<close> at a level
  below \<^verbatim>\<open>LEVELS\<close> with a logical index that is not negative, and after any
  number \<open>k\<close> of calls of \<^verbatim>\<open>advanceChunk\<close> (none of which fails), \<open>currIndex\<close> is at
  least 0 and below \<open>totalChunkCount\<close>, provided that
  \<open>totalChunkCount + levelSizes[level] - 1\<close> is an \<^verbatim>\<open>int\<close>.
\<close>

theorem currIndex_in_ring:
  assumes "valid_config f0" and "init f0 = Inr f"
    and "0 \<le> level" and "level < int (LEVELS f)" and "0 \<le> index"
    and "totalChunkCount f + levelSizes f ! nat level - 1 \<le> 2147483647"
  shows "\<exists>g. goToChunk f level index = Inr g \<and>
           (\<forall>k. \<exists>h. advances k g = Inr h \<and> 0 \<le> currIndex h \<and> currIndex h < totalChunkCount f)"
proof -
  define L where "L = nat level"
  have r: "ready f" using init_ready(1) [OF assms(1,2)] .
  have L: "L < LEVELS f" "level = int L" using assms(3,4) by (simp_all add: L_def)
  have H: "totalChunkCount f + levelSizes f ! L \<le> 2147483648"
    using assms(6) by (simp add: L_def)
  have go: "goToChunk f level index = Inr (located f L index)"
    unfolding L(2) using r L(1) assms(5) by (rule goToChunk_located)
  have "\<exists>h. advances k (located f L index) = Inr h \<and> 0 \<le> currIndex h \<and>
          currIndex h < totalChunkCount f" for k
    using advances_located [OF r L(1) H assms(5), of k]
      located_bounds(1,2) [OF r L(1), of "index + int k"]
    by simp
  then show ?thesis using go by blast
qed

text \<open>The theorem of C3 at steps \<open>[4, 4]\<close>, level 0, index 7, after nine advances.\<close>

theorem currIndex_in_ring_witness:
  "valid_config (new_finder [4, 4]) \<and> init (new_finder [4, 4]) = Inr finder44 \<and>
   (0::int) \<le> 0 \<and> 0 < int (LEVELS finder44) \<and> (0::int) \<le> 7 \<and>
   totalChunkCount finder44 + levelSizes finder44 ! nat 0 - 1 \<le> 2147483647 \<and>
   goToChunk finder44 0 7 = Inr finder44_at7 \<and>
   (\<exists>h. advances 9 finder44_at7 = Inr h \<and> 0 \<le> currIndex h \<and> currIndex h < 20)"
proof -
  have h: "(0::int) \<le> 0" "0 < int (LEVELS finder44)" "(0::int) \<le> 7"
    "totalChunkCount finder44 + levelSizes finder44 ! nat 0 - 1 \<le> 2147483647"
    by (simp_all add: finder44_facts) (simp add: finder44_def)
  from currIndex_in_ring [OF finder44_facts(1,2) h]
  obtain g where g: "goToChunk finder44 0 7 = Inr g"
    "\<forall>k. \<exists>h. advances k g = Inr h \<and> 0 \<le> currIndex h \<and> currIndex h < totalChunkCount finder44"
    by blast
  have "g = finder44_at7"
    using g(1) finder44_facts(4) by simp
  then have "\<exists>h. advances 9 finder44_at7 = Inr h \<and> 0 \<le> currIndex h \<and> currIndex h < 20"
    using g(2) [rule_format, of 9] by (simp add: finder44_def)
  then show ?thesis
    using h finder44_facts by simp
qed

text \<open>
  Claim C3 as stated fails. The steps \<open>[46340, 46340]\<close> are a valid configuration,
  \<^verbatim>\<open>init\<close> returns on it with 2147441940 chunks, and the index 46339 is in the
  range of level 1, whose nodes have the size 46341. \<^verbatim>\<open>goToChunk(1, 46339)\<close>
  sets \<open>currIndex\<close> to 2147441939, and the first \<^verbatim>\<open>advanceChunk\<close> adds 46341 to it
  in line 59: the sum 2147488280 is not an \<^verbatim>\<open>int\<close>, so that the call overflows
  and leaves no \<open>currIndex\<close> within the ring.
\<close>

theorem advanceChunk_overflows_counterexample:
  "valid_config (new_finder [46340, 46340]) \<and>
   init (new_finder [46340, 46340]) = Inr finder46340 \<and>
   totalChunkCount finder46340 = 2147441940 \<and>
   (46339::int) < totalChunkCount finder46340 div levelSizes finder46340 ! 1 \<and>
   goToChunk finder46340 1 46339 = Inr finder46340_last \<and>
   currIndex finder46340_last = 2147441939 \<and>
   currIndex finder46340_last + levelSizes finder46340_last ! 1 = 2147488280 \<and>
   \<not> int_ok 2147488280 \<and>
   advanceChunk finder46340_last = Inl Overflow \<and>
   advances 1 finder46340_last = Inl Overflow"
proof -
  have a: "advanceChunk finder46340_last = Inl Overflow"
    by (simp add: advanceChunk_def finder46340_last_def finder46340_def LEVELS_def
        int_add_def int_ok_def)
  have "init (new_finder [46340, 46340]) = Inr finder46340"
    by (simp add: new_finder_def LEVELS_def init_def init_sizes.simps finder46340_def
        int_add_def int_mul_def int_ok_def)
  moreover have "goToChunk finder46340 1 46339 = Inr finder46340_last"
    by (simp add: finder46340_last_def finder46340_def goToChunk_def goToChunk_digits.simps
        goToChunk_sum.simps cdiv_def cmod_def LEVELS_def int_add_def int_mul_def int_div_def
        int_mod_def int_ok_def)
  moreover have "valid_config (new_finder [46340, 46340])"
    by (simp add: valid_config_def new_finder_def LEVELS_def)
  ultimately show ?thesis
    using a by (simp add: finder46340_last_def finder46340_def int_ok_def)
qed




section \<open>The claims about the view resolver\<close>

text \<open>
  Claim C4, as amended. For a request within the bounds, \<^verbatim>\<open>requestView\<close> uses the
  largest level whose compression is at most span / resolution; when no level
  qualifies it returns the request with the resolution replaced by the span and
  the level \<open>-1\<close> if the original data is allowed, and uses level 0 otherwise. The
  fallback to the original data never fails. With a stored level, when
  \<open>roundTo = c * chunkSize\<close> and \<open>endSamples + roundTo\<close> are within the type
  \<^verbatim>\<open>int\<close>, the request succeeds exactly when the end snapped up is still at most
  the length, and fails the final assertion otherwise; when they are not within
  the type, the snapping overflows.
\<close>

theorem requestView_level_choice:
  assumes "valid_reader r" and "in_bounds r v"
  shows "(\<forall>i. i < length (levelCompression r) \<and> qualifies r v i \<and>
              (\<forall>j. i < j \<and> j < length (levelCompression r) \<longrightarrow> \<not> qualifies r v j) \<longrightarrow>
            requestView r v =
              (if \<not> snap_fits (levelCompression r ! i * chunkSize r) v then Inl Overflow
               else if endSamples (snapped (levelCompression r ! i) (levelCompression r ! i * chunkSize r) v)
                    \<le> lengthSamples r
               then Inr (snapped (levelCompression r ! i) (levelCompression r ! i * chunkSize r) v, int i)
               else Inl AssertionFailed)) \<and>
         ((\<forall>j<length (levelCompression r). \<not> qualifies r v j) \<and> allowOriginal r \<longrightarrow>
            requestView r v = Inr (v\<lparr>resolution := endSamples v - startSamples v\<rparr>, - 1)) \<and>
         ((\<forall>j<length (levelCompression r). \<not> qualifies r v j) \<and> \<not> allowOriginal r \<longrightarrow>
            requestView r v =
              (if \<not> snap_fits (levelCompression r ! 0 * chunkSize r) v then Inl Overflow
               else if endSamples (snapped (levelCompression r ! 0) (levelCompression r ! 0 * chunkSize r) v)
                    \<le> lengthSamples r
               then Inr (snapped (levelCompression r ! 0) (levelCompression r ! 0 * chunkSize r) v, 0)
               else Inl AssertionFailed))"
proof (intro conjI allI impI)
  fix i
  assume a: "i < length (levelCompression r) \<and> qualifies r v i \<and>
              (\<forall>j. i < j \<and> j < length (levelCompression r) \<longrightarrow> \<not> qualifies r v j)"
  have "requestView_scan (levelCompression r)
           (double_div (endSamples v - startSamples v) (resolution v))
           (int (length (levelCompression r)) - 1) = int i"
    using a by (intro scan_unique [OF assms]) simp_all
  then show "requestView r v =
              (if \<not> snap_fits (levelCompression r ! i * chunkSize r) v then Inl Overflow
               else if endSamples (snapped (levelCompression r ! i) (levelCompression r ! i * chunkSize r) v)
                    \<le> lengthSamples r
               then Inr (snapped (levelCompression r ! i) (levelCompression r ! i * chunkSize r) v, int i)
               else Inl AssertionFailed)"
    using requestView_cases(1) [OF assms] by simp
next
  assume a: "(\<forall>j<length (levelCompression r). \<not> qualifies r v j) \<and> allowOriginal r"
  then show "requestView r v = Inr (v\<lparr>resolution := endSamples v - startSamples v\<rparr>, - 1)"
    using requestView_cases(1) [OF assms] scan_none [OF assms(2)] by simp
next
  assume a: "(\<forall>j<length (levelCompression r). \<not> qualifies r v j) \<and> \<not> allowOriginal r"
  then show "requestView r v =
              (if \<not> snap_fits (levelCompression r ! 0 * chunkSize r) v then Inl Overflow
               else if endSamples (snapped (levelCompression r ! 0) (levelCompression r ! 0 * chunkSize r) v)
                    \<le> lengthSamples r
               then Inr (snapped (levelCompression r ! 0) (levelCompression r ! 0 * chunkSize r) v, 0)
               else Inl AssertionFailed)"
    using requestView_cases(1) [OF assms] scan_none [OF assms(2)] by simp
qed

text \<open>The theorem of C4 at the levels \<open>[4, 16]\<close>, length 1024 and the request (0, 200, 10).\<close>

theorem requestView_level_choice_witness:
  "valid_reader (reader_4_16 1024) \<and>
   in_bounds (reader_4_16 1024) \<lparr>startSamples = 0, endSamples = 200, resolution = 10\<rparr> \<and>
   qualifies (reader_4_16 1024) \<lparr>startSamples = 0, endSamples = 200, resolution = 10\<rparr> 1 \<and>
   snap_fits (16 * 16) \<lparr>startSamples = 0, endSamples = 200, resolution = 10\<rparr> \<and>
   requestView (reader_4_16 1024) \<lparr>startSamples = 0, endSamples = 200, resolution = 10\<rparr> =
     Inr (\<lparr>startSamples = 0, endSamples = 256, resolution = 16\<rparr>, 1)"
proof -
  define v where "v = \<lparr>startSamples = 0, endSamples = 200, resolution = (10::int)\<rparr>"
  have vr: "valid_reader (reader_4_16 1024)"
    by (simp add: reader_4_16_valid)
  have b: "in_bounds (reader_4_16 1024) v"
    by (simp add: in_bounds_def reader_4_16_def v_def)
  have q: "qualifies (reader_4_16 1024) v 1"
    by (simp add: qualifies_def reader_4_16_def v_def)
  have sf: "snap_fits (16 * 16) v"
    by (simp add: snap_fits_def v_def)
  have m: "(1::nat) < length (levelCompression (reader_4_16 1024)) \<and> qualifies (reader_4_16 1024) v 1 \<and>
      (\<forall>j. 1 < j \<and> j < length (levelCompression (reader_4_16 1024)) \<longrightarrow>
           \<not> qualifies (reader_4_16 1024) v j)"
    using q by (auto simp: reader_4_16_def)
  from requestView_level_choice [OF vr b] m
  have "requestView (reader_4_16 1024) v =
          (if \<not> snap_fits (levelCompression (reader_4_16 1024) ! 1 * chunkSize (reader_4_16 1024)) v
           then Inl Overflow
           else if endSamples (snapped (levelCompression (reader_4_16 1024) ! 1)
                 (levelCompression (reader_4_16 1024) ! 1 * chunkSize (reader_4_16 1024)) v)
               \<le> lengthSamples (reader_4_16 1024)
           then Inr (snapped (levelCompression (reader_4_16 1024) ! 1)
                 (levelCompression (reader_4_16 1024) ! 1 * chunkSize (reader_4_16 1024)) v, int 1)
           else Inl AssertionFailed)"
    by blast
  then have "requestView (reader_4_16 1024) v =
               Inr (\<lparr>startSamples = 0, endSamples = 256, resolution = 16\<rparr>, 1)"
    using sf by (simp add: reader_4_16_def snapped_def v_def)
  then show ?thesis
    using vr b q sf by (simp add: v_def)
qed

text \<open>
  Claim C4 as stated fails: with the levels \<open>[4, 16]\<close>, chunks of 16 and length 200
  the request (0, 200, 10) is within the bounds, snaps to the end 256 and fails
  the final assertion.
\<close>

theorem requestView_fails_in_bounds_counterexample:
  "mipmapReader_init (blank_reader 200) [4, 4] = Inr (reader_4_16 200) \<and>
   in_bounds (reader_4_16 200) \<lparr>startSamples = 0, endSamples = 200, resolution = 10\<rparr> \<and>
   requestView (reader_4_16 200) \<lparr>startSamples = 0, endSamples = 200, resolution = 10\<rparr>
     = Inl AssertionFailed"
  by (simp add: reader_4_16_init in_bounds_def)
     (simp add: reader_4_16_def requestView_def requestView_snap_def requestView_scan.simps
        double_div_def cdiv_def int_ops)




text \<open>
  Claim C10. The reader initialised with the steps \<open>[4, 4]\<close> and length 1000 gets the
  request (0, 1000, 10), which is within the bounds and ends at the length; level
  1 is chosen, the end snaps up to 1024, beyond the length, and the final
  assertion fails. With length 1024 the same request succeeds.
\<close>

theorem requestView_aborts_in_bounds:
  "mipmapReader_init (blank_reader 1000) [4, 4] = Inr (reader_4_16 1000) \<and>
   levelCompression (reader_4_16 1000) = [4, 16] \<and> chunkSize (reader_4_16 1000) = 16 \<and>
   lengthSamples (reader_4_16 1000) = 1000 \<and>
   in_bounds (reader_4_16 1000) \<lparr>startSamples = 0, endSamples = 1000, resolution = 10\<rparr> \<and>
   endSamples (snapped 16 (16 * 16) \<lparr>startSamples = 0, endSamples = 1000, resolution = 10\<rparr>) = 1024 \<and>
   requestView (reader_4_16 1000) \<lparr>startSamples = 0, endSamples = 1000, resolution = 10\<rparr>
     = Inl AssertionFailed \<and>
   requestView (reader_4_16 1024) \<lparr>startSamples = 0, endSamples = 1000, resolution = 10\<rparr>
     = Inr (\<lparr>startSamples = 0, endSamples = 1024, resolution = 64\<rparr>, 1)"
  by (simp add: reader_4_16_init in_bounds_def snapped_def)
     (simp add: reader_4_16_def requestView_def requestView_snap_def requestView_scan.simps
        double_div_def cdiv_def int_ops)

end
